theory Spec2Isabelle
  imports Main "HOL-Library.Word"
begin

unbundle bit_operations_syntax

section \<open>XGMII driver and monitor of cocotb-bus\<close>

text \<open>
  A shallow embedding of \<^verbatim>\<open>cocotb_bus/drivers/xgmii.py\<close> and
  \<^verbatim>\<open>cocotb_bus/monitors/xgmii.py\<close>. Python integers are \<^typ>\<open>int\<close>, the elements of
  a \<^verbatim>\<open>bytes\<close> or \<^verbatim>\<open>bytearray\<close> object are \<^typ>\<open>8 word\<close>, lane indices and lengths are
  \<^typ>\<open>nat\<close>. A raised \<^verbatim>\<open>IndexError\<close> is the value \<open>Inl IndexError\<close>.
\<close>

subsection \<open>Constants\<close>

type_synonym byte = "8 word"

datatype error = IndexError

definition XGMII_IDLE :: byte where
  "XGMII_IDLE = 0x07"

definition XGMII_START :: byte where
  "XGMII_START = 0xFB"

definition XGMII_TERMINATE :: byte where
  "XGMII_TERMINATE = 0xFD"

definition PREAMBLE_SFD :: "byte list" where
  "PREAMBLE_SFD = [0x55, 0x55, 0x55, 0x55, 0x55, 0x55, 0xD5]"

subsection \<open>The bus word builder (class \<open>_XGMIIBus\<close>)\<close>

record XGMIIBus =
  integer :: int
  interleaved :: bool
  nbytes :: nat

definition XGMIIBus_init :: "nat \<Rightarrow> bool \<Rightarrow> XGMIIBus" where
  "XGMIIBus_init n il = \<lparr>integer = 0, interleaved = il, nbytes = n\<rparr>"

text \<open>
  \<^verbatim>\<open>__setitem__\<close>. The byte is a Python integer (a one-element \<^verbatim>\<open>bytes\<close> object is
  first turned into its integer by \<^verbatim>\<open>ord\<close>), so it is an \<^typ>\<open>int\<close> here; the callers
  pass \<open>uint\<close> of a byte.
\<close>

definition setitem :: "XGMIIBus \<Rightarrow> nat \<Rightarrow> int \<times> bool \<Rightarrow> error + XGMIIBus" where
  "setitem bus index v =
     (case v of (byte, ctrl) \<Rightarrow>
        if index \<ge> nbytes bus then Inl IndexError
        else if interleaved bus then
          Inr (bus\<lparr>integer :=
                 (integer bus OR push_bit (index * 9) byte)
                    OR push_bit (9 * index + 8) (of_bool ctrl)\<rparr>)
        else
          Inr (bus\<lparr>integer :=
                 (integer bus OR push_bit (index * 8) byte)
                    OR push_bit (nbytes bus * 8 + index) (of_bool ctrl)\<rparr>))"

text \<open>
  Modelled from the spec: \<^verbatim>\<open>cocotb_bus.compat.create_binary\<close> is not part of the
  sources at hand. The specification says that reading the word "returns the packed
  integer per the selected layout", so the binary value of \<open>n_bits\<close> bits made from
  the integer is the integer itself.
\<close>

definition create_binary :: "int \<Rightarrow> nat \<Rightarrow> bool \<Rightarrow> int" where
  "create_binary i n_bits big_endian = i"

text \<open>The property \<^verbatim>\<open>value\<close>: the packed word and the cleared builder.\<close>

definition bus_value :: "XGMIIBus \<Rightarrow> int \<times> XGMIIBus" where
  "bus_value bus =
     (create_binary (integer bus) (nbytes bus * 9) False, bus\<lparr>integer := 0\<rparr>)"

definition bus_len :: "XGMIIBus \<Rightarrow> nat" where
  "bus_len bus = nbytes bus"

text \<open>The bits that one write of \<open>(byte, ctrl)\<close> to lane \<open>index\<close> contributes.\<close>

definition lane_bits :: "bool \<Rightarrow> nat \<Rightarrow> nat \<Rightarrow> int \<times> bool \<Rightarrow> int" where
  "lane_bits il n index v =
     (if il then push_bit (index * 9) (fst v) OR push_bit (9 * index + 8) (of_bool (snd v))
      else push_bit (index * 8) (fst v) OR push_bit (n * 8 + index) (of_bool (snd v)))"

subsection \<open>Framing (\<open>XGMII.layer1\<close>)\<close>

text \<open>
  \<^verbatim>\<open>zlib.crc32\<close> is the library's CRC-32 (IEEE 802.3, reflected polynomial
  \<open>0xEDB88320\<close>, initial value and final complement \<open>0xFFFFFFFF\<close>), here in its
  bit-at-a-time form.
\<close>

definition crc32_bit :: "32 word \<Rightarrow> 32 word" where
  "crc32_bit c = (if bit c 0 then drop_bit 1 c XOR 0xEDB88320 else drop_bit 1 c)"

definition crc32_byte :: "32 word \<Rightarrow> byte \<Rightarrow> 32 word" where
  "crc32_byte c b =
     crc32_bit (crc32_bit (crc32_bit (crc32_bit
       (crc32_bit (crc32_bit (crc32_bit (crc32_bit (c XOR ucast b))))))))"

definition zlib_crc32 :: "byte list \<Rightarrow> int" where
  "zlib_crc32 data = uint (fold (\<lambda>b c. crc32_byte c b) data 0xFFFFFFFF XOR 0xFFFFFFFF)"

text \<open>
  \<^verbatim>\<open>struct.pack("<I", x)\<close>: the four bytes of \<open>x\<close>, least significant first. The
  argument is always masked with \<open>0xFFFFFFFF\<close> by the callers, so the range error of
  \<^verbatim>\<open>struct.pack\<close> cannot occur.
\<close>

definition pack_le32 :: "int \<Rightarrow> byte list" where
  "pack_le32 x = map (\<lambda>k. word_of_int (drop_bit (8 * k) x)) [0, 1, 2, 3]"

definition layer1 :: "byte list \<Rightarrow> byte list" where
  "layer1 packet0 =
     (let packet = (if length packet0 < 60
                    then packet0 @ replicate (60 - length packet0) 0x00
                    else packet0)
      in PREAMBLE_SFD @ packet @ pack_le32 (zlib_crc32 packet AND 0xFFFFFFFF))"

subsection \<open>The driver (class \<open>XGMII\<close> of \<open>drivers/xgmii.py\<close>)\<close>

text \<open>A \<^verbatim>\<open>for\<close> loop whose body may raise: the first error ends it.\<close>

fun for_each :: "('a \<Rightarrow> 's \<Rightarrow> error + 's) \<Rightarrow> 'a list \<Rightarrow> 's \<Rightarrow> error + 's" where
  "for_each f [] s = Inr s"
| "for_each f (x # xs) s = (case f x s of Inl e \<Rightarrow> Inl e | Inr s' \<Rightarrow> for_each f xs s')"

text \<open>
  The driver object is its bus word builder; each assignment to \<^verbatim>\<open>self.signal.value\<close>
  is a word put out, returned here next to the builder.
\<close>

definition idle :: "XGMIIBus \<Rightarrow> error + (int \<times> XGMIIBus)" where
  "idle bus =
     (case for_each (\<lambda>i b. setitem b i (uint XGMII_IDLE, True)) [0..<bus_len bus] bus of
        Inl e \<Rightarrow> Inl e
      | Inr b \<Rightarrow> Inr (bus_value b))"

definition terminate :: "XGMIIBus \<Rightarrow> nat \<Rightarrow> error + XGMIIBus" where
  "terminate bus index =
     (case setitem bus index (uint XGMII_TERMINATE, True) of
        Inl e \<Rightarrow> Inl e
      | Inr b \<Rightarrow>
          if int index < int (bus_len b) - 1
          then for_each (\<lambda>rem b. setitem b rem (uint XGMII_IDLE, True))
                 [index + 1..<bus_len b] b
          else Inr b)"

text \<open>\<^verbatim>\<open>XGMII.__init__\<close>: a builder of \<open>len(signal) // 9\<close> lanes, then \<^verbatim>\<open>idle()\<close>.\<close>

definition XGMII_init :: "nat \<Rightarrow> bool \<Rightarrow> error + (int \<times> XGMIIBus)" where
  "XGMII_init signal_len il = idle (XGMIIBus_init (signal_len div 9) il)"

text \<open>
  The start word of \<^verbatim>\<open>_driver_send\<close>: lane 0 carries the start symbol, lane \<open>i\<close>
  carries \<open>pkt[i-1]\<close> (an \<^verbatim>\<open>IndexError\<close> when the packet is shorter).
\<close>

definition send_start :: "XGMIIBus \<Rightarrow> byte list \<Rightarrow> error + XGMIIBus" where
  "send_start bus pkt =
     (case setitem bus 0 (uint XGMII_START, True) of
        Inl e \<Rightarrow> Inl e
      | Inr b \<Rightarrow>
          for_each (\<lambda>i b. if i - 1 < length pkt
                          then setitem b i (uint (pkt ! (i - 1)), False)
                          else Inl IndexError)
            [1..<bus_len b] b)"

text \<open>
  The \<^verbatim>\<open>for\<close> loop inside the \<^verbatim>\<open>while\<close> loop, over the lanes still to fill; it
  gives the builder, \<open>pkt\<close> and \<open>done\<close> as they are when the loop is left.
\<close>

fun send_lanes ::
  "nat list \<Rightarrow> XGMIIBus \<Rightarrow> byte list \<Rightarrow> bool \<Rightarrow> error + (XGMIIBus \<times> byte list \<times> bool)" where
  "send_lanes [] bus pkt done = Inr (bus, pkt, done)"
| "send_lanes (i # is) bus pkt done =
     (if i = length pkt then
        (case terminate bus i of
           Inl e \<Rightarrow> Inl e
         | Inr b \<Rightarrow> Inr (b, [], True))
      else if i < length pkt then
        (case setitem bus i (uint (pkt ! i), False) of
           Inl e \<Rightarrow> Inl e
         | Inr b \<Rightarrow> send_lanes is b pkt done)
      else Inl IndexError)"

text \<open>
  The \<^verbatim>\<open>while pkt:\<close> loop. With a builder of no lanes it would never end, so the
  result is an option: \<open>None\<close> is "does not return".
\<close>

partial_function (option) send_loop ::
  "XGMIIBus \<Rightarrow> byte list \<Rightarrow> bool \<Rightarrow> int list
     \<Rightarrow> (error + (XGMIIBus \<times> bool \<times> int list)) option" where
  "send_loop bus pkt done out =
     (if pkt = [] then Some (Inr (bus, done, out))
      else
        (case send_lanes [0..<bus_len bus] bus pkt done of
           Inl e \<Rightarrow> Some (Inl e)
         | Inr (b, pkt', done') \<Rightarrow>
             send_loop (snd (bus_value b)) (drop (bus_len b) pkt') done'
               (out @ [fst (bus_value b)])))"

declare send_loop.simps [code]

text \<open>
  \<^verbatim>\<open>_driver_send\<close>: the words assigned to the signal, in order, and the builder
  afterwards. The optional wait for a clock edge before the start word (\<open>sync\<close>) puts
  out no word and is left out. The slice \<open>pkt[len(self.bus)-1:]\<close> is only reached with
  at least one lane, since the write to lane 0 raises otherwise.
\<close>

definition driver_send ::
  "XGMIIBus \<Rightarrow> byte list \<Rightarrow> (error + (int list \<times> XGMIIBus)) option" where
  "driver_send bus pkt0 =
     (let pkt = layer1 pkt0 in
      case send_start bus pkt of
        Inl e \<Rightarrow> Some (Inl e)
      | Inr b \<Rightarrow>
          (let pkt = drop (bus_len b - 1) pkt in
           case send_loop (snd (bus_value b)) pkt False [fst (bus_value b)] of
             None \<Rightarrow> None
           | Some (Inl e) \<Rightarrow> Some (Inl e)
           | Some (Inr (b, done, out)) \<Rightarrow>
               (case (if \<not> done
                      then (case terminate b 0 of
                              Inl e \<Rightarrow> Inl e
                            | Inr b \<Rightarrow> Inr (snd (bus_value b), out @ [fst (bus_value b)]))
                      else Inr (b, out)) of
                  Inl e \<Rightarrow> Some (Inl e)
                | Inr (b, out) \<Rightarrow>
                    (case idle b of
                       Inl e \<Rightarrow> Some (Inl e)
                     | Inr (v, b) \<Rightarrow> Some (Inr (out @ [v], b))))))"

subsection \<open>The monitor (class \<open>XGMII\<close> of \<open>monitors/xgmii.py\<close>)\<close>

text \<open>
  Modelled from the spec: \<^verbatim>\<open>cocotb_bus.compat.convert_binary_to_unsigned\<close> is not part
  of the sources at hand. The monitor reads the packed integer of the bus word, so
  the unsigned value of the signal is that integer.
\<close>

definition convert_binary_to_unsigned :: "int \<Rightarrow> int" where
  "convert_binary_to_unsigned v = v"

fun get_bytes_loop ::
  "int \<Rightarrow> nat \<Rightarrow> nat \<Rightarrow> nat list \<Rightarrow> nat \<Rightarrow> byte list \<Rightarrow> bool list \<Rightarrow> bool list \<times> byte list" where
  "get_bytes_loop val byte_shift ctrl_inc [] ctrl_base bytes ctrls = (ctrls, bytes)"
| "get_bytes_loop val byte_shift ctrl_inc (i # is) ctrl_base bytes ctrls =
     get_bytes_loop val byte_shift ctrl_inc is (ctrl_base + ctrl_inc)
       (bytes @ [word_of_int (drop_bit (i * byte_shift) val AND 0xff)])
       (ctrls @ [(val AND push_bit ctrl_base 1) \<noteq> 0])"

definition get_bytes :: "nat \<Rightarrow> bool \<Rightarrow> int \<Rightarrow> bool list \<times> byte list" where
  "get_bytes n il signal_value =
     (let val = convert_binary_to_unsigned signal_value;
          byte_shift = (if il then 8 + 1 else 8);
          ctrl_base = (if il then 8 else 8 * n);
          ctrl_inc = (if il then 9 else 1)
      in get_bytes_loop val byte_shift ctrl_inc [0..<n] ctrl_base [] [])"

text \<open>The error messages of the monitor (\<^verbatim>\<open>self.log.error\<close>); other log levels are left out.\<close>

datatype log_error =
  ControlInPayload
  | RuntFrame
  | NoData
  | UnknownPreamble
  | IncorrectCRC

datatype 'p event = LogError log_error | Recv 'p

text \<open>
  \<^verbatim>\<open>_add_payload\<close>: whether more is to come, the buffer \<open>self._pkt\<close> afterwards, and
  the errors logged.
\<close>

fun add_payload ::
  "bool list \<Rightarrow> byte list \<Rightarrow> byte list \<Rightarrow> error + (bool \<times> byte list \<times> log_error list)" where
  "add_payload ctrl [] pkt = Inr (True, pkt, [])"
| "add_payload [] (byte # bytes) pkt = Inl IndexError"
| "add_payload (c # ctrl) (byte # bytes) pkt =
     (if c then
        (if byte \<noteq> XGMII_TERMINATE then Inr (False, [], [ControlInPayload])
         else Inr (False, pkt, []))
      else add_payload ctrl bytes (pkt @ [byte]))"

text \<open>
  The coroutine \<^verbatim>\<open>_monitor_recv\<close> is suspended at one of its \<^verbatim>\<open>await clk\<close>: at the
  top of the outer loop (\<open>Scanning\<close>) or inside one of the two inner loops
  (\<open>Accumulating\<close>), which continue alike.
\<close>

datatype await_point = Scanning | Accumulating

record monitor =
  pc :: await_point
  self_pkt :: "byte list"

text \<open>
  The end of the outer loop body, from \<^verbatim>\<open>if self._pkt:\<close> on: the events and the buffer
  \<^verbatim>\<open>self._pkt\<close> afterwards. \<open>decode\<close> is what is applied to the payload before \<^verbatim>\<open>_recv\<close>:
  \<^verbatim>\<open>Ether\<close> with scapy, nothing without.
\<close>

definition check_frame :: "(byte list \<Rightarrow> 'p) \<Rightarrow> byte list \<Rightarrow> 'p event list \<times> byte list" where
  "check_frame decode pkt =
     (if pkt \<noteq> [] then
        (let log1 = (if length pkt < 64 + 7 then [LogError RuntFrame] else []) in
         if length pkt < 12 then (log1 @ [LogError NoData], [])
         else
           (let preamble_sfd = take 7 pkt;
                crc32 = drop (length pkt - 4) pkt;
                payload = drop 7 (take (length pkt - 4) pkt)
            in if preamble_sfd \<noteq> PREAMBLE_SFD then (log1 @ [LogError UnknownPreamble], [])
               else
                 (let expected_crc = pack_le32 (zlib_crc32 payload AND 0xFFFFFFFF);
                      log2 = (if crc32 \<noteq> expected_crc then [LogError IncorrectCRC] else [])
                  in (log1 @ log2 @ [Recv (decode payload)], []))))
      else ([], pkt))"

text \<open>One test of \<^verbatim>\<open>while self._add_payload(ctrl, bytes)\<close> and what follows it.\<close>

definition payload_step ::
  "(byte list \<Rightarrow> 'p) \<Rightarrow> bool list \<Rightarrow> byte list \<Rightarrow> byte list
     \<Rightarrow> error + ('p event list \<times> monitor)" where
  "payload_step decode ctrl bytes buf =
     (case add_payload ctrl bytes buf of
        Inl e \<Rightarrow> Inl e
      | Inr (more_to_come, buf', logs) \<Rightarrow>
          if more_to_come then Inr (map LogError logs, \<lparr>pc = Accumulating, self_pkt = buf'\<rparr>)
          else (case check_frame decode buf' of
                  (ev, buf'') \<Rightarrow> Inr (map LogError logs @ ev, \<lparr>pc = Scanning, self_pkt = buf''\<rparr>)))"

text \<open>
  One clock edge of \<^verbatim>\<open>_monitor_recv\<close>: the coroutine resumes with the signal's value
  and runs to its next \<^verbatim>\<open>await clk\<close>. With no lanes, \<open>ctrl[0]\<close> raises. \<open>no_start\<close> is
  the path on which neither start test holds and the loop body goes on at
  \<^verbatim>\<open>if self._pkt:\<close>.
\<close>

definition monitor_step ::
  "nat \<Rightarrow> bool \<Rightarrow> (byte list \<Rightarrow> 'p) \<Rightarrow> monitor \<Rightarrow> int \<Rightarrow> error + ('p event list \<times> monitor)" where
  "monitor_step n il decode st signal_value =
     (case get_bytes n il signal_value of
        (ctrl, bytes) \<Rightarrow>
          (case pc st of
             Accumulating \<Rightarrow> payload_step decode ctrl bytes (self_pkt st)
           | Scanning \<Rightarrow>
               (let no_start = (case check_frame decode (self_pkt st) of
                                  (ev, buf) \<Rightarrow> Inr (ev, \<lparr>pc = Scanning, self_pkt = buf\<rparr>))
                in if n = 0 then Inl IndexError
                   else if ctrl ! 0 \<and> bytes ! 0 = XGMII_START
                   then payload_step decode (drop 1 ctrl) (drop 1 bytes) (self_pkt st)
                   else if n = 8 then
                     (if ctrl ! 4 \<and> bytes ! 4 = XGMII_START
                      then payload_step decode (drop 5 ctrl) (drop 5 bytes) (self_pkt st)
                      else no_start)
                   else no_start)))"

text \<open>The monitor over the words seen at successive clock edges.\<close>

fun monitor_run ::
  "nat \<Rightarrow> bool \<Rightarrow> (byte list \<Rightarrow> 'p) \<Rightarrow> monitor \<Rightarrow> int list
     \<Rightarrow> error + ('p event list \<times> monitor)" where
  "monitor_run n il decode st [] = Inr ([], st)"
| "monitor_run n il decode st (w # ws) =
     (case monitor_step n il decode st w of
        Inl e \<Rightarrow> Inl e
      | Inr (ev, st') \<Rightarrow>
          (case monitor_run n il decode st' ws of
             Inl e \<Rightarrow> Inl e
           | Inr (ev', st'') \<Rightarrow> Inr (ev @ ev', st'')))"

definition monitor_recv ::
  "nat \<Rightarrow> bool \<Rightarrow> (byte list \<Rightarrow> 'p) \<Rightarrow> int list \<Rightarrow> error + ('p event list \<times> monitor)" where
  "monitor_recv n il decode ws = monitor_run n il decode \<lparr>pc = Scanning, self_pkt = []\<rparr> ws"

subsection \<open>Words as lists of lanes\<close>

text \<open>
  A bus word seen as its lanes, each a byte and a control flag: \<open>lanes_bits\<close> is the
  integer after the lanes with the given indices were written on top of \<open>a\<close>,
  \<open>word_of_lanes\<close> the integer of a word whose lanes were all written once, and
  \<open>write_lanes\<close> writes lane \<open>i\<close> of the list to lane \<open>i\<close> of the builder, in order.
\<close>

definition lanes_bits :: "bool \<Rightarrow> nat \<Rightarrow> (byte \<times> bool) list \<Rightarrow> nat list \<Rightarrow> int \<Rightarrow> int" where
  "lanes_bits il n lanes is a =
     fold (\<lambda>i acc. acc OR lane_bits il n i (uint (fst (lanes ! i)), snd (lanes ! i))) is a"

definition word_of_lanes :: "bool \<Rightarrow> nat \<Rightarrow> (byte \<times> bool) list \<Rightarrow> int" where
  "word_of_lanes il n lanes = lanes_bits il n lanes [0..<n] 0"

definition write_lanes :: "XGMIIBus \<Rightarrow> (byte \<times> bool) list \<Rightarrow> error + XGMIIBus" where
  "write_lanes bus lanes =
     for_each (\<lambda>i b. setitem b i (uint (fst (lanes ! i)), snd (lanes ! i)))
       [0..<length lanes] bus"

subsection \<open>The words of a frame\<close>

text \<open>
  What \<^verbatim>\<open>_driver_send\<close> puts out, as lists of lanes: the start word (the start
  symbol and the first \<open>n - 1\<close> bytes), the words of the \<^verbatim>\<open>while\<close> loop (\<open>n\<close> data
  bytes each; the bytes left over, if fewer than \<open>n\<close>, are followed by the terminate
  symbol and idle symbols, which for no bytes is the word of \<open>terminate(0)\<close>), and the
  idle word. \<open>frame_words\<close> puts them in the order of the driver; that the driver
  puts out exactly these words is proved below (\<open>driver_send_eq\<close>).
\<close>

definition start_word :: "nat \<Rightarrow> byte list \<Rightarrow> (byte \<times> bool) list" where
  "start_word n pkt = (XGMII_START, True) # map (\<lambda>b. (b, False)) (take (n - 1) pkt)"

definition data_word :: "nat \<Rightarrow> byte list \<Rightarrow> (byte \<times> bool) list" where
  "data_word n pkt =
     (if length pkt < n
      then map (\<lambda>b. (b, False)) pkt
             @ (XGMII_TERMINATE, True) # replicate (n - Suc (length pkt)) (XGMII_IDLE, True)
      else map (\<lambda>b. (b, False)) (take n pkt))"

definition idle_word :: "nat \<Rightarrow> (byte \<times> bool) list" where
  "idle_word n = replicate n (XGMII_IDLE, True)"

function data_words :: "nat \<Rightarrow> byte list \<Rightarrow> (byte \<times> bool) list list" where
  "data_words n pkt =
     (if n = 0 \<or> pkt = [] then [] else data_word n pkt # data_words n (drop n pkt))"
  by pat_completeness auto
termination
  by (relation "measure (\<lambda>(n, pkt). length pkt)") auto

definition frame_words :: "nat \<Rightarrow> byte list \<Rightarrow> (byte \<times> bool) list list" where
  "frame_words n wire =
     start_word n wire # data_words n (drop (n - 1) wire)
       @ (if length (drop (n - 1) wire) mod n = 0 then [data_word n []] else [])
       @ [idle_word n]"

text \<open>
  The driver and the monitor on one bus: the words put out for one packet, from a
  freshly made driver, are the words the monitor sees at successive clock edges; the
  monitor passes the payload on as bytes (no scapy).
\<close>

definition loopback ::
  "nat \<Rightarrow> bool \<Rightarrow> byte list \<Rightarrow> (error + (byte list event list \<times> monitor)) option" where
  "loopback n il raw =
     (case driver_send (XGMIIBus_init n il) raw of
        None \<Rightarrow> None
      | Some (Inl e) \<Rightarrow> Some (Inl e)
      | Some (Inr (ws, bus)) \<Rightarrow> Some (monitor_recv n il (\<lambda>p. p) ws))"

subsection \<open>Facts about the builder\<close>

lemma setitem_Inr:
  "index < nbytes bus \<Longrightarrow>
   setitem bus index v =
     Inr (bus\<lparr>integer := integer bus OR lane_bits (interleaved bus) (nbytes bus) index v\<rparr>)"
  by (cases v) (simp add: setitem_def lane_bits_def or.assoc)

lemma setitem_Inl: "nbytes bus \<le> index \<Longrightarrow> setitem bus index v = Inl IndexError"
  by (cases v) (simp add: setitem_def)

subsection \<open>Packing and unpacking\<close>

lemma get_bytes_loop_eq:
  "get_bytes_loop val bs ci is cb bytes ctrls =
     (ctrls @ map (\<lambda>k. (val AND push_bit (cb + k * ci) 1) \<noteq> 0) [0..<length is],
      bytes @ map (\<lambda>i. word_of_int (drop_bit (i * bs) val AND 0xff)) is)"
proof (induction "is" arbitrary: cb bytes ctrls)
  case Nil
  then show ?case by simp
next
  case (Cons i "is")
  have "map (\<lambda>k. (val AND push_bit (cb + k * ci) 1) \<noteq> 0) [0..<Suc (length is)]
        = ((val AND push_bit cb 1) \<noteq> 0) # map (\<lambda>k. (val AND push_bit (cb + ci + k * ci) 1) \<noteq> 0) [0..<length is]"
    by (simp add: upt_rec [of 0] map_Suc_upt [symmetric] del: upt_Suc) (simp add: add.assoc add.commute)
  then show ?case
    by (simp add: Cons.IH del: upt_Suc)
qed

lemma and_push_bit_1: "((v::int) AND push_bit k 1) \<noteq> 0 \<longleftrightarrow> bit v k"
  by (simp add: bit_iff_and_push_bit_not_eq_0)

lemma and_exp_2: "((v::int) AND 2 ^ k) \<noteq> 0 \<longleftrightarrow> bit v k"
  using and_push_bit_1 [of v k] by simp

lemma get_bytes_eq:
  "get_bytes n il v =
     (map (\<lambda>i. bit v (if il then 9 * i + 8 else 8 * n + i)) [0..<n],
      map (\<lambda>i. word_of_int (take_bit 8 (drop_bit (if il then 9 * i else 8 * i) v))) [0..<n])"
  by (simp add: get_bytes_def convert_binary_to_unsigned_def get_bytes_loop_eq and_exp_2
      take_bit_eq_mask mask_eq_exp_minus_1 mult.commute add.commute)

lemma length_get_bytes:
  "length (fst (get_bytes n il v)) = n" "length (snd (get_bytes n il v)) = n"
  by (simp_all add: get_bytes_eq)


lemma bit_fold_or:
  "bit (fold (\<lambda>i acc. acc OR f i) is (a::int)) k \<longleftrightarrow> bit a k \<or> (\<exists>i\<in>set is. bit (f i) k)"
  by (induction "is" arbitrary: a) (auto simp add: bit_simps)

lemma bit_lane_bits:
  "bit (lane_bits il n i (uint (b::byte), c)) k \<longleftrightarrow>
     (if il then (9 * i \<le> k \<and> k < 9 * i + 8 \<and> bit b (k - 9 * i)) \<or> (k = 9 * i + 8 \<and> c)
      else (8 * i \<le> k \<and> k < 8 * i + 8 \<and> bit b (k - 8 * i)) \<or> (k = 8 * n + i \<and> c))"
proof -
  have u: "bit (uint b) j \<longleftrightarrow> j < 8 \<and> bit b j" for j
    using bit_imp_le_length [of b j] by (auto simp add: bit_uint_iff)
  have o: "bit (of_bool c :: int) j \<longleftrightarrow> j = 0 \<and> c" for j
    by (cases c) (simp_all add: bit_1_iff)
  show ?thesis
    unfolding lane_bits_def fst_conv snd_conv
    by (simp add: bit_or_iff bit_push_bit_iff u o) (auto simp add: mult.commute)
qed

lemma bit_word_of_lanes:
  "bit (word_of_lanes il n lanes) k \<longleftrightarrow>
     (\<exists>i<n. bit (lane_bits il n i (uint (fst (lanes ! i)), snd (lanes ! i))) k)"
  by (auto simp add: word_of_lanes_def lanes_bits_def bit_fold_or)

lemma ctrl_word_of_lanes:
  assumes "i < n"
  shows "bit (word_of_lanes il n lanes) (if il then 9 * i + 8 else 8 * n + i) = snd (lanes ! i)"
proof (cases il)
  case True
  have "\<And>j. 9 * j \<le> 9 * i + 8 \<Longrightarrow> 9 * i + 8 < 9 * j + 8 \<Longrightarrow> False" by arith
  then show ?thesis using True assms
    by (auto simp add: bit_word_of_lanes bit_lane_bits)
next
  case False
  have "\<And>j. j < n \<Longrightarrow> 8 * n + i < 8 * j + 8 \<Longrightarrow> False" by arith
  then show ?thesis using False assms
    by (auto simp add: bit_word_of_lanes bit_lane_bits)
qed

lemma byte_bits_word_of_lanes:
  assumes "i < n" "k < 8"
  shows "bit (word_of_lanes il n lanes) ((if il then 9 * i else 8 * i) + k) = bit (fst (lanes ! i)) k"
proof (cases il)
  case True
  have "bit (word_of_lanes il n lanes) (9 * i + k) \<longleftrightarrow> bit (fst (lanes ! i)) k"
  proof
    assume "bit (word_of_lanes il n lanes) (9 * i + k)"
    then obtain j where j: "j < n"
      "(9 * j \<le> 9 * i + k \<and> 9 * i + k < 9 * j + 8 \<and> bit (fst (lanes ! j)) (9 * i + k - 9 * j))
         \<or> (9 * i + k = 9 * j + 8 \<and> snd (lanes ! j))"
      using True by (auto simp add: bit_word_of_lanes bit_lane_bits)
    then have "j = i" using assms(2) by arith
    with j show "bit (fst (lanes ! i)) k" using assms(2) by auto
  next
    assume "bit (fst (lanes ! i)) k"
    then have "bit (lane_bits il n i (uint (fst (lanes ! i)), snd (lanes ! i))) (9 * i + k)"
      using True assms by (simp add: bit_lane_bits)
    then show "bit (word_of_lanes il n lanes) (9 * i + k)"
      using assms(1) unfolding bit_word_of_lanes by blast
  qed
  then show ?thesis using True by simp
next
  case False
  have "bit (word_of_lanes il n lanes) (8 * i + k) \<longleftrightarrow> bit (fst (lanes ! i)) k"
  proof
    assume "bit (word_of_lanes il n lanes) (8 * i + k)"
    then obtain j where j: "j < n"
      "(8 * j \<le> 8 * i + k \<and> 8 * i + k < 8 * j + 8 \<and> bit (fst (lanes ! j)) (8 * i + k - 8 * j))
         \<or> (8 * i + k = 8 * n + j \<and> snd (lanes ! j))"
      using False by (auto simp add: bit_word_of_lanes bit_lane_bits)
    then have "j = i" using assms by arith
    with j show "bit (fst (lanes ! i)) k" using assms by auto
  next
    assume "bit (fst (lanes ! i)) k"
    then have "bit (lane_bits il n i (uint (fst (lanes ! i)), snd (lanes ! i))) (8 * i + k)"
      using False assms by (simp add: bit_lane_bits)
    then show "bit (word_of_lanes il n lanes) (8 * i + k)"
      using assms(1) unfolding bit_word_of_lanes by blast
  qed
  then show ?thesis using False by simp
qed

lemma byte_word_of_lanes:
  assumes "i < n"
  shows "(word_of_int (take_bit 8 (drop_bit (if il then 9 * i else 8 * i) (word_of_lanes il n lanes))) :: byte)
           = fst (lanes ! i)"
proof (rule bit_word_eqI)
  fix k assume "k < LENGTH(8)"
  then have k: "k < 8" by simp
  show "bit (word_of_int (take_bit 8 (drop_bit (if il then 9 * i else 8 * i) (word_of_lanes il n lanes))) :: byte) k
         = bit (fst (lanes ! i)) k"
    using byte_bits_word_of_lanes [OF assms k, of il lanes] k
    by (simp add: bit_word_of_int_iff bit_take_bit_iff bit_drop_bit_eq add.commute)
qed

lemma get_bytes_word_of_lanes:
  assumes "length lanes = n"
  shows "get_bytes n il (word_of_lanes il n lanes) = (map snd lanes, map fst lanes)"
proof -
  have 1: "map (\<lambda>i. bit (word_of_lanes il n lanes) (if il then 9 * i + 8 else 8 * n + i)) [0..<n]
           = map snd lanes"
    using assms by (intro nth_equalityI) (simp_all add: ctrl_word_of_lanes)
  have 2: "map (\<lambda>i. word_of_int (take_bit 8 (drop_bit (if il then 9 * i else 8 * i) (word_of_lanes il n lanes)))) [0..<n]
           = map fst lanes"
    using assms by (intro nth_equalityI) (simp_all add: byte_word_of_lanes)
  show ?thesis unfolding get_bytes_eq 1 2 by (rule refl)
qed


lemma for_each_setitem:
  "\<forall>i\<in>set is. i < nbytes bus \<Longrightarrow>
   for_each (\<lambda>i b. setitem b i (g i)) is bus =
     Inr (bus\<lparr>integer := fold (\<lambda>i acc. acc OR lane_bits (interleaved bus) (nbytes bus) i (g i))
                               is (integer bus)\<rparr>)"
proof (induction "is" arbitrary: bus)
  case Nil
  then show ?case by simp
next
  case (Cons i "is")
  then show ?case by (simp add: setitem_Inr)
qed

lemma write_lanes_eq:
  "length lanes \<le> nbytes bus \<Longrightarrow>
   write_lanes bus lanes =
     Inr (bus\<lparr>integer := lanes_bits (interleaved bus) (nbytes bus) lanes [0..<length lanes]
                               (integer bus)\<rparr>)"
  unfolding write_lanes_def lanes_bits_def by (rule for_each_setitem) simp

text \<open>
  C3: for every number of lanes (4 and 8 among them), both layouts and every list of
  that many (byte, control) pairs: writing pair \<open>i\<close> to lane \<open>i\<close> of an empty builder
  and unpacking the packed value gives back the same pairs in lane order. The byte of
  lane \<open>i\<close> lies at bits \<open>9i..9i+7\<close> and its control flag at bit \<open>9i+8\<close> when
  interleaved, at bits \<open>8i..8i+7\<close> and bit \<open>8n+i\<close> otherwise.
\<close>

theorem pack_unpack_roundtrip:
  assumes "length lanes = n"
  shows "\<exists>bus. write_lanes (XGMIIBus_init n il) lanes = Inr bus
           \<and> get_bytes n il (fst (bus_value bus)) = (map snd lanes, map fst lanes)
           \<and> (\<forall>i<n. snd (lanes ! i) = bit (fst (bus_value bus)) (if il then 9 * i + 8 else 8 * n + i)
                  \<and> (\<forall>k<8. bit (fst (lanes ! i)) k
                              = bit (fst (bus_value bus)) ((if il then 9 * i else 8 * i) + k)))"
proof -
  have w: "write_lanes (XGMIIBus_init n il) lanes
             = Inr ((XGMIIBus_init n il)\<lparr>integer := word_of_lanes il n lanes\<rparr>)"
    using assms by (simp add: write_lanes_eq word_of_lanes_def XGMIIBus_init_def)
  have v: "fst (bus_value ((XGMIIBus_init n il)\<lparr>integer := word_of_lanes il n lanes\<rparr>))
             = word_of_lanes il n lanes"
    by (simp add: bus_value_def create_binary_def)
  have c: "\<forall>i<n. snd (lanes ! i) = bit (word_of_lanes il n lanes) (if il then 9 * i + 8 else 8 * n + i)
                  \<and> (\<forall>k<8. bit (fst (lanes ! i)) k
                              = bit (word_of_lanes il n lanes) ((if il then 9 * i else 8 * i) + k))"
    by (intro allI impI conjI)
       (simp_all only: ctrl_word_of_lanes [of _ n il lanes]
          byte_bits_word_of_lanes [of _ n _ il lanes])
  show ?thesis
    by (rule exI [of _ "(XGMIIBus_init n il)\<lparr>integer := word_of_lanes il n lanes\<rparr>"])
       (use c in \<open>simp only: w v get_bytes_word_of_lanes [OF assms] simp_thms\<close>)
qed

theorem pack_unpack_roundtrip_witness:
  "length [(0xFB, True), (0x55, False), (0x55, False), (0xD5 :: byte, False)] = 4
   \<and> (\<exists>bus. write_lanes (XGMIIBus_init 4 True)
                [(0xFB, True), (0x55, False), (0x55, False), (0xD5, False)] = Inr bus
           \<and> get_bytes 4 True (fst (bus_value bus))
                = ([True, False, False, False], [0xFB, 0x55, 0x55, 0xD5]))"
  using pack_unpack_roundtrip [of "[(0xFB, True), (0x55, False), (0x55, False), (0xD5, False)]" 4 True]
  by auto

text \<open>
  C10: two writes \<open>(b1, c1)\<close> and \<open>(b2, c2)\<close> to the same lane \<open>i < n\<close>, with no
  read in between, leave in the packed integer the bitwise OR of both encodings at
  the positions of lane \<open>i\<close>, which is the encoding of \<open>(b1 OR b2, c1 \<or> c2)\<close>, and no
  bit set before is cleared.
\<close>

theorem setitem_accumulates:
  assumes "i < nbytes bus"
  shows "\<exists>bus1 bus2. setitem bus i (b1, c1) = Inr bus1 \<and> setitem bus1 i (b2, c2) = Inr bus2
           \<and> integer bus2 = integer bus OR lane_bits (interleaved bus) (nbytes bus) i (b1, c1)
                                OR lane_bits (interleaved bus) (nbytes bus) i (b2, c2)
           \<and> lane_bits (interleaved bus) (nbytes bus) i (b1, c1)
                OR lane_bits (interleaved bus) (nbytes bus) i (b2, c2)
              = lane_bits (interleaved bus) (nbytes bus) i (b1 OR b2, c1 \<or> c2)
           \<and> (\<forall>k. bit (integer bus) k \<or> bit (lane_bits (interleaved bus) (nbytes bus) i (b1, c1)) k
                  \<longrightarrow> bit (integer bus2) k)"
proof -
  have ob: "(of_bool (c1 \<or> c2) :: int) = of_bool c1 OR of_bool c2"
    by (cases c1; cases c2) simp_all
  have l: "lane_bits il n i (b1, c1) OR lane_bits il n i (b2, c2) = lane_bits il n i (b1 OR b2, c1 \<or> c2)" for il n
    unfolding lane_bits_def fst_conv snd_conv ob
    by (simp add: ac_simps)
  define bus1 where
    "bus1 = bus\<lparr>integer := integer bus OR lane_bits (interleaved bus) (nbytes bus) i (b1, c1)\<rparr>"
  define bus2 where
    "bus2 = bus1\<lparr>integer := integer bus1 OR lane_bits (interleaved bus) (nbytes bus) i (b2, c2)\<rparr>"
  have 1: "setitem bus i (b1, c1) = Inr bus1"
    using assms by (simp add: setitem_Inr bus1_def)
  have 2: "setitem bus1 i (b2, c2) = Inr bus2"
    using assms by (simp add: setitem_Inr bus1_def bus2_def)
  have 3: "integer bus2 = integer bus OR lane_bits (interleaved bus) (nbytes bus) i (b1, c1)
                                OR lane_bits (interleaved bus) (nbytes bus) i (b2, c2)"
    by (simp add: bus1_def bus2_def or.assoc)
  have 4: "\<forall>k. bit (integer bus) k \<or> bit (lane_bits (interleaved bus) (nbytes bus) i (b1, c1)) k
                  \<longrightarrow> bit (integer bus2) k"
    unfolding 3 by (simp add: bit_or_iff)
  show ?thesis
    using 1 2 3 4 l by blast
qed

theorem setitem_accumulates_witness:
  "0 < nbytes (XGMIIBus_init 4 True)
   \<and> (\<exists>bus1 bus2. setitem (XGMIIBus_init 4 True) 0 (0x0F, False) = Inr bus1
         \<and> setitem bus1 0 (0xF0, False) = Inr bus2
         \<and> integer bus2 = 0xFF \<and> integer bus2 \<noteq> 0xF0)"
  using setitem_accumulates [of 0 "XGMIIBus_init 4 True" "0x0F" False "0xF0" False]
  by (auto simp add: XGMIIBus_init_def lane_bits_def)


subsection \<open>Facts about framing\<close>

lemma crc_mask: "zlib_crc32 d AND 0xFFFFFFFF = zlib_crc32 d"
proof -
  have "take_bit 32 (zlib_crc32 d) = zlib_crc32 d"
    unfolding zlib_crc32_def
    by (rule take_bit_int_eq_self) (use uint_lt2p [where 'a=32] in simp_all)
  then show ?thesis by (simp add: take_bit_eq_mask mask_eq_exp_minus_1)
qed

lemma crc_range: "0 \<le> zlib_crc32 d \<and> zlib_crc32 d < 2 ^ 32"
  unfolding zlib_crc32_def using uint_lt2p [where 'a=32] by simp

lemma length_pack_le32: "length (pack_le32 x) = 4"
  by (simp add: pack_le32_def)

lemma le32_digits:
  fixes x :: int
  assumes "0 \<le> x" "x < 2 ^ 32"
  shows "x mod 256 + 256 * (x div 256 mod 256) + 65536 * (x div 65536 mod 256)
           + 16777216 * (x div 16777216 mod 256) = x"
proof -
  define q1 where "q1 = x div 256"
  define q2 where "q2 = q1 div 256"
  define q3 where "q3 = q2 div 256"
  have e1: "x = 256 * q1 + x mod 256" by (simp add: q1_def)
  have e2: "q1 = 256 * q2 + q1 mod 256" by (simp add: q2_def)
  have e3: "q2 = 256 * q3 + q2 mod 256" by (simp add: q3_def)
  have d2: "x div 65536 = q2"
    unfolding q2_def q1_def using zdiv_zmult2_eq [of 256 x 256] by simp
  have d3: "x div 16777216 = q3"
    unfolding q3_def q2_def q1_def
    using zdiv_zmult2_eq [of 256 x 256] zdiv_zmult2_eq [of 256 x 65536] by simp
  have "x < 256 * 16777216" using assms by simp
  then have "x div 16777216 < 256" by (simp add: div_less_iff_less_mult)
  moreover have "0 \<le> x div 16777216" using assms by simp
  ultimately have m3: "q3 mod 256 = q3" unfolding d3 by simp
  show ?thesis
    unfolding d2 d3 m3 q1_def [symmetric] using e1 e2 e3 by linarith
qed

lemma pack_le32_bytes:
  "pack_le32 x = [word_of_int x, word_of_int (x div 256), word_of_int (x div 65536),
                  word_of_int (x div 16777216)]"
  by (simp add: pack_le32_def drop_bit_eq_div)

lemma uint_byte_of_int: "uint (word_of_int y :: byte) = y mod 256"
  by (simp add: uint_word_of_int)

lemma pack_le32_value:
  assumes "0 \<le> x" "x < 2 ^ 32"
  shows "uint (pack_le32 x ! 0) + 2 ^ 8 * uint (pack_le32 x ! 1)
           + 2 ^ 16 * uint (pack_le32 x ! 2) + 2 ^ 24 * uint (pack_le32 x ! 3) = x"
proof -
  have n: "pack_le32 x ! 0 = word_of_int x" "pack_le32 x ! 1 = word_of_int (x div 256)"
    "pack_le32 x ! 2 = word_of_int (x div 65536)"
    "pack_le32 x ! 3 = word_of_int (x div 16777216)"
    by (simp_all add: pack_le32_bytes)
  have p: "(2::int) ^ 8 = 256" "(2::int) ^ 16 = 65536" "(2::int) ^ 24 = 16777216"
    by simp_all
  show ?thesis
    unfolding n uint_byte_of_int p by (rule le32_digits [OF assms])
qed

lemma layer1_eq:
  "layer1 raw = PREAMBLE_SFD @ (raw @ replicate (60 - length raw) 0)
                  @ pack_le32 (zlib_crc32 (raw @ replicate (60 - length raw) 0))"
  by (simp add: layer1_def crc_mask Let_def)

text \<open>
  C2: the framing transform gives the seven bytes 55 55 55 55 55 55 D5, then the raw
  bytes padded on the right with zero bytes to at least 60 bytes (nothing is added to
  60 bytes or more), then four bytes that are the little-endian digits of the CRC-32
  of the padded payload alone.
\<close>

theorem layer1_wire_frame:
  "(let padded = raw @ replicate (60 - length raw) (0x00 :: byte);
        crc = pack_le32 (zlib_crc32 padded)
    in layer1 raw = [0x55, 0x55, 0x55, 0x55, 0x55, 0x55, 0xD5] @ padded @ crc
       \<and> length padded = max 60 (length raw)
       \<and> take (length raw) padded = raw
       \<and> set (drop (length raw) padded) \<subseteq> {0x00}
       \<and> length crc = 4
       \<and> uint (crc ! 0) + 2 ^ 8 * uint (crc ! 1) + 2 ^ 16 * uint (crc ! 2)
            + 2 ^ 24 * uint (crc ! 3) = zlib_crc32 padded)"
proof -
  define padded where "padded = raw @ replicate (60 - length raw) (0x00 :: byte)"
  define crc where "crc = pack_le32 (zlib_crc32 padded)"
  have 1: "layer1 raw = [0x55, 0x55, 0x55, 0x55, 0x55, 0x55, 0xD5] @ padded @ crc"
    unfolding padded_def crc_def layer1_eq PREAMBLE_SFD_def by (rule refl)
  have 2: "length padded = max 60 (length raw)"
    by (simp add: padded_def)
  have 3: "take (length raw) padded = raw"
    by (simp add: padded_def)
  have 4: "set (drop (length raw) padded) \<subseteq> {0x00}"
    by (auto simp add: padded_def)
  have 5: "length crc = 4"
    by (simp add: crc_def length_pack_le32)
  have 6: "uint (crc ! 0) + 2 ^ 8 * uint (crc ! 1) + 2 ^ 16 * uint (crc ! 2)
            + 2 ^ 24 * uint (crc ! 3) = zlib_crc32 padded"
    unfolding crc_def using crc_range [of padded] by (intro pack_le32_value) blast+
  show ?thesis
    unfolding Let_def padded_def [symmetric] crc_def [symmetric]
    using 1 2 3 4 5 6 by blast
qed

subsection \<open>Facts about the monitor\<close>

lemma add_payload_data:
  "length ctrl = length bytes \<Longrightarrow> \<forall>c\<in>set ctrl. \<not> c \<Longrightarrow>
   add_payload ctrl bytes buf = Inr (True, buf @ bytes, [])"
  by (induction ctrl bytes arbitrary: buf rule: list_induct2) auto

lemma add_payload_ctrl:
  "length ctrl = length bytes \<Longrightarrow> k < length bytes \<Longrightarrow> \<forall>j<k. \<not> ctrl ! j \<Longrightarrow> ctrl ! k \<Longrightarrow>
   add_payload ctrl bytes buf =
     (if bytes ! k \<noteq> XGMII_TERMINATE then Inr (False, [], [ControlInPayload])
      else Inr (False, buf @ take k bytes, []))"
proof (induction ctrl bytes arbitrary: buf k rule: list_induct2)
  case Nil
  then show ?case by simp
next
  case (Cons c ctrl b bytes)
  show ?case
  proof (cases k)
    case 0
    with Cons.prems show ?thesis by simp
  next
    case (Suc k')
    have "\<not> c" using Cons.prems(2) Suc by auto
    moreover have "\<forall>j<k'. \<not> ctrl ! j" using Cons.prems(2) Suc by auto
    ultimately show ?thesis
      using Cons.IH [of k' "buf @ [b]"] Cons.prems Suc by simp
  qed
qed

lemma check_frame_Nil: "check_frame decode [] = ([], [])"
  by (simp add: check_frame_def)

lemma get_bytes_cases [case_names lanes]:
  obtains ctrl bytes where "get_bytes n il w = (ctrl, bytes)" "length ctrl = n" "length bytes = n"
  using length_get_bytes [of n il w] by (cases "get_bytes n il w") auto

text \<open>
  C8 (amended): while the monitor is accumulating, if the first lane of the word whose
  control flag is set carries a byte other than TERMINATE (all lanes before it being
  data), the frame in progress is aborted: the accumulated bytes are dropped, nothing
  is delivered, and the monitor is scanning again.
\<close>

theorem control_symbol_aborts:
  assumes "k < n"
    and "\<forall>j<k. \<not> fst (get_bytes n il w) ! j"
    and "fst (get_bytes n il w) ! k"
    and "snd (get_bytes n il w) ! k \<noteq> XGMII_TERMINATE"
  shows "monitor_step n il decode \<lparr>pc = Accumulating, self_pkt = buf\<rparr> w
           = Inr ([LogError ControlInPayload], \<lparr>pc = Scanning, self_pkt = []\<rparr>)"
proof (cases rule: get_bytes_cases [of n il w])
  case (lanes ctrl bytes)
  have "add_payload ctrl bytes buf = Inr (False, [], [ControlInPayload])"
    using add_payload_ctrl [of ctrl bytes k buf] assms lanes by simp
  then show ?thesis
    by (simp add: monitor_step_def lanes payload_step_def check_frame_Nil)
qed

theorem control_symbol_aborts_witness:
  "(1::nat) < 4 \<and> \<not> fst (get_bytes 4 True 134673) ! 0
   \<and> fst (get_bytes 4 True 134673) ! 1
   \<and> snd (get_bytes 4 True 134673) ! 1 \<noteq> XGMII_TERMINATE
   \<and> monitor_step 4 True (\<lambda>p. p) \<lparr>pc = Accumulating, self_pkt = [0x55, 0x55]\<rparr> 134673
       = Inr ([LogError ControlInPayload], \<lparr>pc = Scanning, self_pkt = []\<rparr>)"
proof -
  have g: "get_bytes 4 True 134673 = ([False, True, False, False], [0x11, 0x07, 0, 0])"
    by code_simp
  show ?thesis
    using control_symbol_aborts [of 1 4 True 134673 "\<lambda>p. p" "[0x55, 0x55]"]
    by (simp add: g XGMII_TERMINATE_def)
qed

text \<open>
  C8 as stated fails on the word that ends every frame of the driver: TERMINATE in
  lane 0 and IDLE, with its control flag, in the lanes after it. Lane 1 has its control
  flag set and does not carry TERMINATE, yet the accumulated frame is checked and its
  payload delivered.
\<close>

theorem terminate_word_counterexample:
  "fst (get_bytes 4 True 35368341501) ! 1
   \<and> snd (get_bytes 4 True 35368341501) ! 1 \<noteq> XGMII_TERMINATE
   \<and> monitor_step 4 True (\<lambda>p. p)
        \<lparr>pc = Accumulating,
         self_pkt = [0x55, 0x55, 0x55, 0x55, 0x55, 0x55, 0xD5, 0x00, 0x00, 0x00, 0x00, 0x00]\<rparr>
        35368341501
       = Inr ([LogError RuntFrame, LogError IncorrectCRC, Recv [0x00]],
              \<lparr>pc = Scanning, self_pkt = []\<rparr>)"
  by code_simp


text \<open>
  C6 (amended): an accumulated frame of at least 12 bytes that begins with the
  preamble/SFD constant and whose last four bytes are not the little-endian CRC-32 of
  the bytes between the first seven and the last four is reported as having an
  incorrect CRC, and the stripped payload is delivered all the same.
\<close>

theorem crc_mismatch_delivers:
  assumes "12 \<le> length p"
    and "take 7 p = PREAMBLE_SFD"
    and "drop (length p - 4) p \<noteq> pack_le32 (zlib_crc32 (drop 7 (take (length p - 4) p)))"
  shows "check_frame decode p
           = ((if length p < 71 then [LogError RuntFrame] else [])
                @ [LogError IncorrectCRC, Recv (decode (drop 7 (take (length p - 4) p)))], [])"
proof -
  have "p \<noteq> []" using assms(1) by auto
  then show ?thesis
    using assms by (simp add: check_frame_def crc_mask Let_def)
qed

theorem crc_mismatch_delivers_witness:
  "12 \<le> length [0x55, 0x55, 0x55, 0x55, 0x55, 0x55, 0xD5, 0x00, 0x00, 0x00, 0x00, 0x00 :: byte]
   \<and> check_frame (\<lambda>p. p) [0x55, 0x55, 0x55, 0x55, 0x55, 0x55, 0xD5, 0x00, 0x00, 0x00, 0x00, 0x00]
       = ([LogError RuntFrame, LogError IncorrectCRC, Recv [0x00]], [])"
proof -
  have c: "pack_le32 (zlib_crc32 [0x00]) = [0x8D, 0xEF, 0x02, 0xD2]"
    by code_simp
  show ?thesis
    using crc_mismatch_delivers
      [of "[0x55, 0x55, 0x55, 0x55, 0x55, 0x55, 0xD5, 0x00, 0x00, 0x00, 0x00, 0x00]" "\<lambda>p. p"]
    by (simp add: c PREAMBLE_SFD_def)
qed

text \<open>
  C6 as stated fails on an accumulated frame shorter than 12 bytes: the eight bytes
  below begin with the preamble/SFD constant and their last four bytes are not the
  CRC-32 of the (empty) middle, but the frame is dropped as having no data: no CRC
  error is reported and nothing is delivered.
\<close>

theorem short_frame_counterexample:
  "take 7 [0x55, 0x55, 0x55, 0x55, 0x55, 0x55, 0xD5, 0x01 :: byte] = PREAMBLE_SFD
   \<and> drop (length [0x55, 0x55, 0x55, 0x55, 0x55, 0x55, 0xD5, 0x01 :: byte] - 4)
        [0x55, 0x55, 0x55, 0x55, 0x55, 0x55, 0xD5, 0x01 :: byte]
      \<noteq> pack_le32 (zlib_crc32 (drop 7 (take
            (length [0x55, 0x55, 0x55, 0x55, 0x55, 0x55, 0xD5, 0x01 :: byte] - 4)
            [0x55, 0x55, 0x55, 0x55, 0x55, 0x55, 0xD5, 0x01])) AND 0xFFFFFFFF)
   \<and> check_frame (\<lambda>p. p) [0x55, 0x55, 0x55, 0x55, 0x55, 0x55, 0xD5, 0x01]
       = ([LogError RuntFrame, LogError NoData], [])"
  by code_simp

text \<open>
  C7: an accumulated frame of at least 12 bytes whose first seven bytes are not the
  preamble/SFD constant is reported as having an unknown preamble and nothing is
  delivered; the step of the monitor that completes such a frame leaves it scanning
  with an empty buffer.
\<close>

theorem bad_preamble_discards:
  assumes "12 \<le> length p"
    and "take 7 p \<noteq> PREAMBLE_SFD"
  shows "check_frame decode p
           = ((if length p < 71 then [LogError RuntFrame] else []) @ [LogError UnknownPreamble], [])
         \<and> (add_payload (fst (get_bytes n il w)) (snd (get_bytes n il w)) buf = Inr (False, p, logs)
              \<longrightarrow> monitor_step n il decode \<lparr>pc = Accumulating, self_pkt = buf\<rparr> w
                    = Inr (map LogError logs @ (if length p < 71 then [LogError RuntFrame] else [])
                             @ [LogError UnknownPreamble],
                           \<lparr>pc = Scanning, self_pkt = []\<rparr>))"
proof -
  have "p \<noteq> []" using assms(1) by auto
  then have c: "check_frame decode p
           = ((if length p < 71 then [LogError RuntFrame] else []) @ [LogError UnknownPreamble], [])"
    using assms by (simp add: check_frame_def Let_def)
  show ?thesis
    unfolding c by (cases "get_bytes n il w") (simp add: monitor_step_def payload_step_def c)
qed

theorem bad_preamble_discards_witness:
  "12 \<le> length [0x55, 0x55, 0x55, 0x55, 0x55, 0x55, 0x55, 0x00, 0x00, 0x00, 0x00, 0x00 :: byte]
   \<and> take 7 [0x55, 0x55, 0x55, 0x55, 0x55, 0x55, 0x55, 0x00, 0x00, 0x00, 0x00, 0x00 :: byte]
        \<noteq> PREAMBLE_SFD
   \<and> add_payload (fst (get_bytes 4 True 35368466944)) (snd (get_bytes 4 True 35368466944))
        [0x55, 0x55, 0x55, 0x55, 0x55, 0x55, 0x55, 0x00, 0x00, 0x00, 0x00]
       = Inr (False, [0x55, 0x55, 0x55, 0x55, 0x55, 0x55, 0x55, 0x00, 0x00, 0x00, 0x00, 0x00], [])
   \<and> monitor_step 4 True (\<lambda>p. p)
        \<lparr>pc = Accumulating,
         self_pkt = [0x55, 0x55, 0x55, 0x55, 0x55, 0x55, 0x55, 0x00, 0x00, 0x00, 0x00]\<rparr> 35368466944
       = Inr ([LogError RuntFrame, LogError UnknownPreamble], \<lparr>pc = Scanning, self_pkt = []\<rparr>)"
proof -
  have g: "get_bytes 4 True 35368466944 = ([False, True, True, True], [0x00, 0xFD, 0x07, 0x07])"
    by code_simp
  show ?thesis
    using bad_preamble_discards
      [of "[0x55, 0x55, 0x55, 0x55, 0x55, 0x55, 0x55, 0x00, 0x00, 0x00, 0x00, 0x00]"
          "\<lambda>p. p" 4 True 35368466944
          "[0x55, 0x55, 0x55, 0x55, 0x55, 0x55, 0x55, 0x00, 0x00, 0x00, 0x00]" "[]"]
    by (simp add: g PREAMBLE_SFD_def XGMII_TERMINATE_def)
qed

lemma drop_5_of_8:
  assumes "length xs = 8"
  shows "drop 5 xs = [xs ! 5, xs ! 6, xs ! 7]"
proof (rule nth_equalityI)
  show "length (drop 5 xs) = length [xs ! 5, xs ! 6, xs ! 7]"
    using assms by simp
next
  fix i assume "i < length (drop 5 xs)"
  then have "i < 3" using assms by simp
  then consider "i = 0" | "i = 1" | "i = 2" by arith
  then show "drop 5 xs ! i = [xs ! 5, xs ! 6, xs ! 7] ! i"
    using assms by cases simp_all
qed

text \<open>
  C5 (amended): on an 8-lane bus, a scanning monitor that sees a word whose lane 0 is
  not (START, control) but whose lane 4 is, and whose lanes 5, 6 and 7 carry data
  (control flags clear), goes on accumulating with the bytes of lanes 5, 6 and 7 as
  the first three bytes of its buffer.
\<close>

theorem lane4_start_accumulates:
  assumes "\<not> (fst (get_bytes 8 il w) ! 0 \<and> snd (get_bytes 8 il w) ! 0 = XGMII_START)"
    and "fst (get_bytes 8 il w) ! 4 \<and> snd (get_bytes 8 il w) ! 4 = XGMII_START"
    and "\<not> fst (get_bytes 8 il w) ! 5" "\<not> fst (get_bytes 8 il w) ! 6" "\<not> fst (get_bytes 8 il w) ! 7"
  shows "monitor_step 8 il decode \<lparr>pc = Scanning, self_pkt = buf\<rparr> w
           = Inr ([], \<lparr>pc = Accumulating,
                      self_pkt = buf @ [snd (get_bytes 8 il w) ! 5, snd (get_bytes 8 il w) ! 6,
                                        snd (get_bytes 8 il w) ! 7]\<rparr>)"
proof (cases rule: get_bytes_cases [of 8 il w])
  case (lanes ctrl bytes)
  have dc: "drop 5 ctrl = [ctrl ! 5, ctrl ! 6, ctrl ! 7]"
    using lanes(2) by (rule drop_5_of_8)
  have db: "drop 5 bytes = [bytes ! 5, bytes ! 6, bytes ! 7]"
    using lanes(3) by (rule drop_5_of_8)
  show ?thesis
    using assms unfolding lanes fst_conv snd_conv
    by (auto simp add: monitor_step_def lanes Let_def payload_step_def dc db)
qed

theorem lane4_start_accumulates_witness:
  "\<not> (fst (get_bytes 8 True 1966112493271143812871) ! 0
        \<and> snd (get_bytes 8 True 1966112493271143812871) ! 0 = XGMII_START)
   \<and> fst (get_bytes 8 True 1966112493271143812871) ! 4
   \<and> snd (get_bytes 8 True 1966112493271143812871) ! 4 = XGMII_START
   \<and> monitor_step 8 True (\<lambda>p. p) \<lparr>pc = Scanning, self_pkt = []\<rparr> 1966112493271143812871
       = Inr ([], \<lparr>pc = Accumulating, self_pkt = [0x55, 0x55, 0xD5]\<rparr>)"
proof -
  have g: "get_bytes 8 True 1966112493271143812871
             = ([True, True, True, True, True, False, False, False],
                [0x07, 0x07, 0x07, 0x07, 0xFB, 0x55, 0x55, 0xD5])"
    by code_simp
  show ?thesis
    using lane4_start_accumulates [of True 1966112493271143812871 "\<lambda>p. p" "[]"]
    by (simp add: g XGMII_START_def)
qed

text \<open>
  C5 as stated fails when a lane after the start symbol carries a control symbol:
  with TERMINATE in lane 5 the monitor stays scanning and has accumulated nothing.
\<close>

theorem lane4_start_then_control_counterexample:
  "\<not> (fst (get_bytes 8 True 2430502576222336061191) ! 0
        \<and> snd (get_bytes 8 True 2430502576222336061191) ! 0 = XGMII_START)
   \<and> fst (get_bytes 8 True 2430502576222336061191) ! 4
   \<and> snd (get_bytes 8 True 2430502576222336061191) ! 4 = XGMII_START
   \<and> monitor_step 8 True (\<lambda>p. p) \<lparr>pc = Scanning, self_pkt = []\<rparr> 2430502576222336061191
       = Inr ([], \<lparr>pc = Scanning, self_pkt = []\<rparr>)"
  by code_simp


subsection \<open>Facts about the driver\<close>

declare data_words.simps [simp del]

lemma length_data_word [simp]: "length (data_word n pkt) = n"
  by (auto simp add: data_word_def)

lemma length_start_word: "n - 1 \<le> length pkt \<Longrightarrow> 0 < n \<Longrightarrow> length (start_word n pkt) = n"
  by (simp add: start_word_def)

lemma length_idle_word [simp]: "length (idle_word n) = n"
  by (simp add: idle_word_def)

lemma for_each_cong:
  "(\<And>x s. x \<in> set xs \<Longrightarrow> f x s = g x s) \<Longrightarrow> for_each f xs s = for_each g xs s"
  by (induction xs arbitrary: s) (auto split: sum.splits)

lemma lanes_bits_cong:
  "(\<And>i. i \<in> set is \<Longrightarrow> g i = (uint (fst (lanes ! i)), snd (lanes ! i))) \<Longrightarrow>
   fold (\<lambda>i acc. acc OR lane_bits il n i (g i)) is a = lanes_bits il n lanes is a"
  unfolding lanes_bits_def by (rule fold_cong) auto

lemma lanes_bits_Cons:
  "lanes_bits il n lanes (i # is) a
     = lanes_bits il n lanes is (a OR lane_bits il n i (uint (fst (lanes ! i)), snd (lanes ! i)))"
  by (simp add: lanes_bits_def)

lemma for_each_lanes:
  assumes "\<forall>i\<in>set is. i < nbytes bus"
    and "\<And>i. i \<in> set is \<Longrightarrow> g i = (uint (fst (lanes ! i)), snd (lanes ! i))"
  shows "for_each (\<lambda>i b. setitem b i (g i)) is bus
           = Inr (bus\<lparr>integer := lanes_bits (interleaved bus) (nbytes bus) lanes is (integer bus)\<rparr>)"
  using for_each_setitem [OF assms(1), of g] lanes_bits_cong [OF assms(2)] by simp

lemma terminate_lanes:
  assumes "i < nbytes bus" "lanes ! i = (XGMII_TERMINATE, True)"
    and "\<And>j. i < j \<Longrightarrow> j < nbytes bus \<Longrightarrow> lanes ! j = (XGMII_IDLE, True)"
  shows "terminate bus i
           = Inr (bus\<lparr>integer := lanes_bits (interleaved bus) (nbytes bus) lanes [i..<nbytes bus]
                                     (integer bus)\<rparr>)"
proof -
  define b where "b = bus\<lparr>integer := integer bus
      OR lane_bits (interleaved bus) (nbytes bus) i (uint XGMII_TERMINATE, True)\<rparr>"
  have s: "setitem bus i (uint XGMII_TERMINATE, True) = Inr b"
    using assms(1) by (simp add: setitem_Inr b_def)
  have f: "for_each (\<lambda>rem b. setitem b rem (uint XGMII_IDLE, True)) [i + 1..<nbytes b] b
             = Inr (b\<lparr>integer := lanes_bits (interleaved b) (nbytes b) lanes [i + 1..<nbytes b]
                         (integer b)\<rparr>)"
    by (rule for_each_lanes) (use assms(3) in \<open>auto simp add: b_def\<close>)
  have e: "\<not> int i < int (nbytes b) - 1 \<Longrightarrow> [i + 1..<nbytes b] = []"
    by auto
  have u: "[i..<nbytes bus] = i # [i + 1..<nbytes bus]"
    using assms(1) by (simp add: upt_conv_Cons)
  have t: "terminate bus i
           = for_each (\<lambda>rem b. setitem b rem (uint XGMII_IDLE, True)) [i + 1..<nbytes b] b"
    using e by (auto simp add: terminate_def s bus_len_def)
  show ?thesis
    unfolding t f u lanes_bits_Cons by (simp add: b_def assms(2))
qed

lemma data_word_nth_data:
  "k < length pkt \<Longrightarrow> k < n \<Longrightarrow> data_word n pkt ! k = (pkt ! k, False)"
  by (simp add: data_word_def nth_append)

lemma data_word_nth_terminate:
  "length pkt < n \<Longrightarrow> data_word n pkt ! length pkt = (XGMII_TERMINATE, True)"
  by (simp add: data_word_def nth_append)

lemma data_word_nth_idle:
  "length pkt < j \<Longrightarrow> j < n \<Longrightarrow> data_word n pkt ! j = (XGMII_IDLE, True)"
  by (simp add: data_word_def nth_append nth_Cons')

lemma send_lanes_eq:
  "k \<le> length pkt \<Longrightarrow> k \<le> n \<Longrightarrow> nbytes bus = n \<Longrightarrow>
   send_lanes [k..<n] bus pkt done
     = Inr (bus\<lparr>integer := lanes_bits (interleaved bus) n (data_word n pkt) [k..<n] (integer bus)\<rparr>,
            if length pkt < n then [] else pkt, done \<or> length pkt < n)"
proof (induction "n - k" arbitrary: k bus)
  case 0
  then have "k = n" by simp
  with 0 show ?case by (simp add: lanes_bits_def)
next
  case (Suc d)
  then have kn: "k < n" by simp
  then have u: "[k..<n] = k # [Suc k..<n]" by (simp add: upt_conv_Cons)
  show ?case
  proof (cases "k = length pkt")
    case True
    have "terminate bus k
           = Inr (bus\<lparr>integer := lanes_bits (interleaved bus) (nbytes bus) (data_word n pkt)
                                     [k..<nbytes bus] (integer bus)\<rparr>)"
      using kn True Suc.prems
      by (intro terminate_lanes) (simp_all add: data_word_nth_terminate data_word_nth_idle)
    then have "terminate bus k
           = Inr (bus\<lparr>integer := lanes_bits (interleaved bus) n (data_word n pkt)
                                     (k # [Suc k..<n]) (integer bus)\<rparr>)"
      using Suc.prems u by simp
    then show ?thesis
      using True kn unfolding u by simp
  next
    case False
    then have kl: "k < length pkt" using Suc.prems by simp
    define b where "b = bus\<lparr>integer := integer bus
      OR lane_bits (interleaved bus) n k (uint (pkt ! k), False)\<rparr>"
    have s: "setitem bus k (uint (pkt ! k), False) = Inr b"
      using kn Suc.prems by (simp add: setitem_Inr b_def)
    have "send_lanes [Suc k..<n] b pkt done
            = Inr (b\<lparr>integer := lanes_bits (interleaved b) n (data_word n pkt) [Suc k..<n] (integer b)\<rparr>,
                   if length pkt < n then [] else pkt, done \<or> length pkt < n)"
      using Suc.hyps(2) kl kn Suc.prems by (intro Suc.hyps(1)) (simp_all add: b_def)
    then show ?thesis
      using kl False unfolding u
      by (simp add: s lanes_bits_Cons data_word_nth_data kn) (simp add: b_def)
  qed
qed

lemma start_word_nth:
  "0 < i \<Longrightarrow> i < n \<Longrightarrow> n - 1 \<le> length pkt \<Longrightarrow> start_word n pkt ! i = (pkt ! (i - 1), False)"
proof -
  assume a: "0 < i" "i < n" "n - 1 \<le> length pkt"
  then have "i - 1 < n - 1" by arith
  then have "take (n - 1) pkt ! (i - 1) = pkt ! (i - 1)" by (rule nth_take)
  moreover have "i - 1 < length (take (n - 1) pkt)" using a by simp
  ultimately show ?thesis using a by (simp add: start_word_def nth_Cons')
qed

lemma send_start_eq:
  assumes "0 < n" "n - 1 \<le> length pkt"
  shows "send_start (XGMIIBus_init n il) pkt
           = Inr ((XGMIIBus_init n il)\<lparr>integer := word_of_lanes il n (start_word n pkt)\<rparr>)"
proof -
  define b where "b = (XGMIIBus_init n il)\<lparr>integer :=
      lane_bits il n 0 (uint XGMII_START, True)\<rparr>"
  have s: "setitem (XGMIIBus_init n il) 0 (uint XGMII_START, True) = Inr b"
    using assms(1) by (simp add: setitem_Inr b_def XGMIIBus_init_def)
  have c: "for_each (\<lambda>i b. if i - 1 < length pkt
                          then setitem b i (uint (pkt ! (i - 1)), False)
                          else Inl IndexError) [1..<bus_len b] b
           = for_each (\<lambda>i b. setitem b i (uint (pkt ! (i - 1)), False)) [1..<bus_len b] b"
    using assms by (intro for_each_cong) (auto simp add: b_def bus_len_def XGMIIBus_init_def)
  have f: "for_each (\<lambda>i b. setitem b i (uint (pkt ! (i - 1)), False)) [1..<bus_len b] b
           = Inr (b\<lparr>integer := lanes_bits (interleaved b) (nbytes b) (start_word n pkt)
                                  [1..<bus_len b] (integer b)\<rparr>)"
    using assms
    by (intro for_each_lanes)
       (auto simp add: b_def bus_len_def XGMIIBus_init_def start_word_nth)
  have u: "[0..<n] = 0 # [1..<n]"
    using assms(1) by (simp add: upt_conv_Cons)
  have h: "start_word n pkt ! 0 = (XGMII_START, True)"
    by (simp add: start_word_def)
  show ?thesis
    unfolding send_start_def s sum.case c f word_of_lanes_def u lanes_bits_Cons h
    by (simp add: b_def bus_len_def XGMIIBus_init_def)
qed

lemma idle_eq:
  "idle (XGMIIBus_init n il) = Inr (word_of_lanes il n (idle_word n), XGMIIBus_init n il)"
proof -
  have "for_each (\<lambda>i b. setitem b i (uint XGMII_IDLE, True)) [0..<n] (XGMIIBus_init n il)
          = Inr ((XGMIIBus_init n il)\<lparr>integer := lanes_bits il n (idle_word n) [0..<n] 0\<rparr>)"
    using for_each_lanes [of "[0..<n]" "XGMIIBus_init n il" "\<lambda>i. (uint XGMII_IDLE, True)" "idle_word n"]
    by (simp add: XGMIIBus_init_def idle_word_def)
  then show ?thesis
    by (simp add: idle_def bus_len_def bus_value_def create_binary_def word_of_lanes_def
        XGMIIBus_init_def)
qed

lemma XGMII_init_eq:
  "XGMII_init (9 * n) il = Inr (word_of_lanes il n (idle_word n), XGMIIBus_init n il)"
  by (simp add: XGMII_init_def idle_eq)

lemma terminate_0_eq:
  assumes "0 < n"
  shows "terminate (XGMIIBus_init n il) 0
           = Inr ((XGMIIBus_init n il)\<lparr>integer := word_of_lanes il n (data_word n [])\<rparr>)"
  using terminate_lanes [of 0 "XGMIIBus_init n il" "data_word n []"] assms
    data_word_nth_terminate [of "[]" n] data_word_nth_idle [of "[]" _ n]
  by (simp add: XGMIIBus_init_def word_of_lanes_def)

lemma bus_init_simps [simp]:
  "nbytes (XGMIIBus_init n il) = n"
  "interleaved (XGMIIBus_init n il) = il"
  "integer (XGMIIBus_init n il) = 0"
  "bus_len (XGMIIBus_init n il) = n"
  "bus_len (XGMIIBus_init n il\<lparr>integer := v\<rparr>) = n"
  "bus_value (XGMIIBus_init n il\<lparr>integer := v\<rparr>) = (v, XGMIIBus_init n il)"
  by (simp_all add: XGMIIBus_init_def bus_len_def bus_value_def create_binary_def)

lemma send_loop_eq:
  assumes "0 < n"
  shows "send_loop (XGMIIBus_init n il) pkt fin out
           = Some (Inr (XGMIIBus_init n il, fin \<or> length pkt mod n \<noteq> 0,
                        out @ map (word_of_lanes il n) (data_words n pkt)))"
proof (induction pkt arbitrary: fin out rule: length_induct)
  case (1 pkt)
  show ?case
  proof (cases "pkt = []")
    case True
    then show ?thesis
      by (subst send_loop.simps) (simp add: data_words.simps)
  next
    case False
    have sl: "send_lanes [0..<n] (XGMIIBus_init n il) pkt fin
        = Inr ((XGMIIBus_init n il)\<lparr>integer := word_of_lanes il n (data_word n pkt)\<rparr>,
               if length pkt < n then [] else pkt, fin \<or> length pkt < n)"
      using send_lanes_eq [of 0 pkt n "XGMIIBus_init n il" "fin"]
      by (simp add: XGMIIBus_init_def word_of_lanes_def)
    have dr: "drop n (if length pkt < n then [] else pkt) = drop n pkt"
      by simp
    have len: "length (drop n pkt) < length pkt"
      using False assms by simp
    have dn: "(fin \<or> length pkt < n) \<or> length (drop n pkt) mod n \<noteq> 0
               \<longleftrightarrow> fin \<or> length pkt mod n \<noteq> 0"
    proof (cases "length pkt < n")
      case True
      then show ?thesis using False by simp
    next
      case False
      then show ?thesis by (simp add: le_mod_geq)
    qed
    have dw: "data_words n pkt = data_word n pkt # data_words n (drop n pkt)"
      using False assms by (subst data_words.simps) simp
    have ih: "send_loop (XGMIIBus_init n il) (drop n pkt) (fin \<or> length pkt < n)
                (out @ [word_of_lanes il n (data_word n pkt)])
              = Some (Inr (XGMIIBus_init n il,
                   (fin \<or> length pkt < n) \<or> length (drop n pkt) mod n \<noteq> 0,
                   (out @ [word_of_lanes il n (data_word n pkt)])
                     @ map (word_of_lanes il n) (data_words n (drop n pkt))))"
      using 1 len by blast
    have step: "send_loop (XGMIIBus_init n il) pkt fin out
                = send_loop (XGMIIBus_init n il) (drop n pkt) (fin \<or> length pkt < n)
                    (out @ [word_of_lanes il n (data_word n pkt)])"
      by (subst send_loop.simps) (simp add: False sl dr)
    show ?thesis
      unfolding step ih dw using dn by simp
  qed
qed

lemma driver_send_eq:
  assumes "0 < n" "n - 1 \<le> length (layer1 raw)"
  shows "driver_send (XGMIIBus_init n il) raw
           = Some (Inr (map (word_of_lanes il n) (frame_words n (layer1 raw)),
                        XGMIIBus_init n il))"
proof -
  have t: "terminate (XGMIIBus_init n il) 0
           = Inr ((XGMIIBus_init n il)\<lparr>integer := word_of_lanes il n (data_word n [])\<rparr>)"
    using assms(1) by (rule terminate_0_eq)
  show ?thesis
    unfolding driver_send_def Let_def send_start_eq [OF assms] sum.case bus_init_simps
      fst_conv snd_conv send_loop_eq [OF assms(1)] option.case prod.case
    by (simp add: t idle_eq frame_words_def)
qed

lemma length_layer1: "length (layer1 raw) = 11 + max 60 (length raw)"
  by (simp add: layer1_eq PREAMBLE_SFD_def length_pack_le32)

subsection \<open>The monitor on the words of the driver\<close>

lemma monitor_step_start_word:
  assumes "0 < n" "n - 1 \<le> length wire"
  shows "monitor_step n il decode \<lparr>pc = Scanning, self_pkt = buf\<rparr>
           (word_of_lanes il n (start_word n wire))
         = Inr ([], \<lparr>pc = Accumulating, self_pkt = buf @ take (n - 1) wire\<rparr>)"
proof -
  have g: "get_bytes n il (word_of_lanes il n (start_word n wire))
             = (True # replicate (n - 1) False, XGMII_START # take (n - 1) wire)"
    using assms
    by (simp add: get_bytes_word_of_lanes length_start_word)
       (simp add: start_word_def comp_def map_replicate_const)
  have a: "add_payload (replicate (n - 1) False) (take (n - 1) wire) buf
             = Inr (True, buf @ take (n - 1) wire, [])"
    using assms by (intro add_payload_data) simp_all
  show ?thesis
    using assms(1) a by (simp add: monitor_step_def g payload_step_def)
qed

lemma monitor_step_idle_word:
  assumes "0 < n"
  shows "monitor_step n il decode \<lparr>pc = Scanning, self_pkt = []\<rparr> (word_of_lanes il n (idle_word n))
         = Inr ([], \<lparr>pc = Scanning, self_pkt = []\<rparr>)"
proof -
  have g: "get_bytes n il (word_of_lanes il n (idle_word n))
             = (replicate n True, replicate n XGMII_IDLE)"
    by (simp add: get_bytes_word_of_lanes) (simp add: idle_word_def)
  have ne: "XGMII_IDLE \<noteq> XGMII_START"
    by (simp add: XGMII_IDLE_def XGMII_START_def)
  show ?thesis
    using assms ne by (simp add: monitor_step_def g check_frame_Nil Let_def)
qed

lemma snd_check_frame: "snd (check_frame decode p) = []"
  by (simp add: check_frame_def Let_def)

lemma check_frame_pair: "check_frame decode p = (fst (check_frame decode p), [])"
  using snd_check_frame [of decode p] by (cases "check_frame decode p") simp

lemma monitor_step_data_word:
  assumes "0 < n"
  shows "monitor_step n il decode \<lparr>pc = Accumulating, self_pkt = buf\<rparr>
           (word_of_lanes il n (data_word n p))
         = (if length p < n
            then Inr (fst (check_frame decode (buf @ p)), \<lparr>pc = Scanning, self_pkt = []\<rparr>)
            else Inr ([], \<lparr>pc = Accumulating, self_pkt = buf @ take n p\<rparr>))"
proof (cases "length p < n")
  case True
  define ctrl where "ctrl = map snd (data_word n p)"
  define bytes where "bytes = map fst (data_word n p)"
  have g: "get_bytes n il (word_of_lanes il n (data_word n p)) = (ctrl, bytes)"
    by (simp add: get_bytes_word_of_lanes ctrl_def bytes_def)
  have l: "length ctrl = length bytes" "length p < length bytes"
    using True by (simp_all add: ctrl_def bytes_def)
  have c: "\<forall>j<length p. \<not> ctrl ! j"
    using True by (simp add: ctrl_def data_word_nth_data)
  have t: "ctrl ! length p" "bytes ! length p = XGMII_TERMINATE"
    using True by (simp_all add: ctrl_def bytes_def data_word_nth_terminate)
  have tk: "take (length p) bytes = p"
    using True by (simp add: bytes_def data_word_def comp_def)
  have a: "add_payload ctrl bytes buf = Inr (False, buf @ p, [])"
    using add_payload_ctrl [OF l c t(1), of buf] t(2) tk by simp
  show ?thesis
    using True
    by (simp add: monitor_step_def g payload_step_def a case_prod_beta snd_check_frame)
next
  case False
  have g: "get_bytes n il (word_of_lanes il n (data_word n p))
             = (replicate n False, take n p)"
    using False
    by (simp add: get_bytes_word_of_lanes)
       (simp add: data_word_def comp_def map_replicate_const)
  have a: "add_payload (replicate n False) (take n p) buf = Inr (True, buf @ take n p, [])"
    using False by (intro add_payload_data) simp_all
  show ?thesis
    using False by (simp add: monitor_step_def g payload_step_def a)
qed

lemma monitor_run_tail:
  assumes "0 < n"
  shows "monitor_run n il decode \<lparr>pc = Accumulating, self_pkt = buf\<rparr>
           (map (word_of_lanes il n)
              (data_words n p @ (if length p mod n = 0 then [data_word n []] else [])) @ ws)
         = (case monitor_run n il decode \<lparr>pc = Scanning, self_pkt = []\<rparr> ws of
              Inl e \<Rightarrow> Inl e
            | Inr (ev, st) \<Rightarrow> Inr (fst (check_frame decode (buf @ p)) @ ev, st))"
proof (induction p arbitrary: buf rule: length_induct)
  case (1 p)
  show ?case
  proof (cases "p = []")
    case True
    then show ?thesis
      using assms by (auto simp add: data_words.simps monitor_step_data_word split: sum.splits)
  next
    case False
    have dw: "data_words n p = data_word n p # data_words n (drop n p)"
      using False assms by (subst data_words.simps) simp
    show ?thesis
    proof (cases "length p < n")
      case True
      then have "data_words n (drop n p) = []" "length p mod n \<noteq> 0"
        using False by (simp_all add: data_words.simps)
      then show ?thesis
        using True assms by (auto simp add: dw monitor_step_data_word split: sum.splits)
    next
      case ge: False
      have m: "length (drop n p) mod n = length p mod n"
        using ge by (simp add: le_mod_geq)
      have len: "length (drop n p) < length p"
        using False assms by simp
      have ih: "monitor_run n il decode \<lparr>pc = Accumulating, self_pkt = buf @ take n p\<rparr>
           (map (word_of_lanes il n)
              (data_words n (drop n p)
                 @ (if length (drop n p) mod n = 0 then [data_word n []] else [])) @ ws)
         = (case monitor_run n il decode \<lparr>pc = Scanning, self_pkt = []\<rparr> ws of
              Inl e \<Rightarrow> Inl e
            | Inr (ev, st) \<Rightarrow> Inr (fst (check_frame decode ((buf @ take n p) @ drop n p)) @ ev, st))"
        using 1 len by blast
      show ?thesis
        using ge assms ih unfolding m
        by (simp add: dw monitor_step_data_word split: sum.splits)
    qed
  qed
qed

lemma check_frame_layer1:
  "check_frame decode (layer1 raw) = ([Recv (decode (raw @ replicate (60 - length raw) 0))], [])"
proof -
  define padded where "padded = raw @ replicate (60 - length raw) (0 :: byte)"
  define crc where "crc = pack_le32 (zlib_crc32 padded)"
  have w: "layer1 raw = PREAMBLE_SFD @ padded @ crc"
    by (simp add: layer1_eq padded_def crc_def)
  have lp: "60 \<le> length padded" by (simp add: padded_def)
  have lc: "length crc = 4" by (simp add: crc_def length_pack_le32)
  have l7: "length PREAMBLE_SFD = 7" by (simp add: PREAMBLE_SFD_def)
  have 1: "take 7 (PREAMBLE_SFD @ padded @ crc) = PREAMBLE_SFD"
    using l7 by simp
  have 2: "drop (length (PREAMBLE_SFD @ padded @ crc) - 4) (PREAMBLE_SFD @ padded @ crc) = crc"
    using l7 lc by simp
  have 3: "drop 7 (take (length (PREAMBLE_SFD @ padded @ crc) - 4) (PREAMBLE_SFD @ padded @ crc))
             = padded"
    using l7 lc by simp
  have 4: "\<not> length (PREAMBLE_SFD @ padded @ crc) < 71" "\<not> length (PREAMBLE_SFD @ padded @ crc) < 12"
    "PREAMBLE_SFD @ padded @ crc \<noteq> []"
    using l7 lc lp by auto
  show ?thesis
    unfolding w check_frame_def Let_def 1 2 3
    using 4 by (simp add: crc_mask) (simp add: crc_def padded_def)
qed

lemma loopback_eq:
  assumes "0 < n" "n \<le> 72"
  shows "loopback n il raw
           = Some (Inr ([Recv (raw @ replicate (60 - length raw) 0)],
                        \<lparr>pc = Scanning, self_pkt = []\<rparr>))"
proof -
  have l: "n - 1 \<le> length (layer1 raw)"
    using assms by (simp add: length_layer1)
  have d: "driver_send (XGMIIBus_init n il) raw
           = Some (Inr (map (word_of_lanes il n) (frame_words n (layer1 raw)),
                        XGMIIBus_init n il))"
    using assms(1) l by (rule driver_send_eq)
  have t: "take (n - 1) (layer1 raw) @ drop (n - 1) (layer1 raw) = layer1 raw"
    by simp
  have r: "monitor_recv n il (\<lambda>p. p) (map (word_of_lanes il n) (frame_words n (layer1 raw)))
             = Inr ([Recv (raw @ replicate (60 - length raw) 0)], \<lparr>pc = Scanning, self_pkt = []\<rparr>)"
    unfolding monitor_recv_def frame_words_def
    using monitor_run_tail [OF assms(1), of il "\<lambda>p. p" "take (n - 1) (layer1 raw)"
        "drop (n - 1) (layer1 raw)" "[word_of_lanes il n (idle_word n)]"]
    by (simp add: monitor_step_start_word [OF assms(1) l] monitor_step_idle_word [OF assms(1)]
        check_frame_layer1 del: append_take_drop_id)
       (simp add: check_frame_layer1)
  show ?thesis
    by (simp add: loopback_def d r)
qed

lemma length_data_words:
  assumes "0 < n"
  shows "length (data_words n p) = length p div n + (if length p mod n = 0 then 0 else 1)"
proof (induction p rule: length_induct)
  case (1 p)
  show ?case
  proof (cases "p = []")
    case True
    then show ?thesis by (simp add: data_words.simps)
  next
    case False
    have dw: "data_words n p = data_word n p # data_words n (drop n p)"
      using False assms by (subst data_words.simps) simp
    have len: "length (drop n p) < length p"
      using False assms by simp
    have ih: "length (data_words n (drop n p))
                = length (drop n p) div n + (if length (drop n p) mod n = 0 then 0 else 1)"
      using 1 len by blast
    show ?thesis
    proof (cases "length p < n")
      case True
      then show ?thesis using False by (simp add: dw data_words.simps)
    next
      case ge: False
      then show ?thesis
        using ih assms by (simp add: dw le_div_geq le_mod_geq)
    qed
  qed
qed

lemma nth_data_words:
  "0 < n \<Longrightarrow> i * n < length p \<Longrightarrow> data_words n p ! i = data_word n (drop (i * n) p)"
proof (induction i arbitrary: p)
  case 0
  then have "p \<noteq> []" by auto
  then show ?case using 0 by (subst data_words.simps) simp
next
  case (Suc i)
  then have ne: "p \<noteq> []" by auto
  have "i * n < length (drop n p)" using Suc.prems by simp
  then have "data_words n (drop n p) ! i = data_word n (drop (i * n) (drop n p))"
    using Suc.IH Suc.prems(1) by blast
  then show ?case
    using ne Suc.prems(1) by (subst data_words.simps) (simp add: add.commute)
qed

lemma get_bytes_data_word_full:
  "n \<le> length p \<Longrightarrow>
   get_bytes n il (word_of_lanes il n (data_word n p)) = (replicate n False, take n p)"
  by (simp add: get_bytes_word_of_lanes) (simp add: data_word_def comp_def map_replicate_const)

lemma get_bytes_data_word_end:
  "length p < n \<Longrightarrow>
   get_bytes n il (word_of_lanes il n (data_word n p))
     = (replicate (length p) False @ True # replicate (n - Suc (length p)) True,
        p @ XGMII_TERMINATE # replicate (n - Suc (length p)) XGMII_IDLE)"
  by (simp add: get_bytes_word_of_lanes) (simp add: data_word_def comp_def map_replicate_const)

lemma get_bytes_idle_word:
  "get_bytes n il (word_of_lanes il n (idle_word n)) = (replicate n True, replicate n XGMII_IDLE)"
  by (simp add: get_bytes_word_of_lanes) (simp add: idle_word_def)

lemma frame_words_exact:
  assumes "0 < n" "length (drop (n - 1) wire) = q * n" "0 < q"
  shows "length (frame_words n wire) = q + 3"
    and "frame_words n wire ! q = data_word n (drop ((q - 1) * n) (drop (n - 1) wire))"
    and "frame_words n wire ! (q + 1) = data_word n []"
    and "frame_words n wire ! (q + 2) = idle_word n"
proof -
  define rest where "rest = drop (n - 1) wire"
  have l: "length (data_words n rest) = q"
    using assms by (simp add: length_data_words rest_def)
  have f: "frame_words n wire
             = start_word n wire # data_words n rest @ [data_word n [], idle_word n]"
    using assms by (simp add: frame_words_def rest_def)
  show "length (frame_words n wire) = q + 3"
    by (simp add: f l)
  have "(q - 1) * n < length rest"
    using assms by (simp add: rest_def)
  then have d: "data_words n rest ! (q - 1) = data_word n (drop ((q - 1) * n) rest)"
    using assms(1) by (intro nth_data_words)
  show "frame_words n wire ! q = data_word n (drop ((q - 1) * n) (drop (n - 1) wire))"
    using assms(3) l d by (simp add: f nth_Cons' nth_append rest_def)
  show "frame_words n wire ! (q + 1) = data_word n []"
    using l by (simp add: f nth_append)
  show "frame_words n wire ! (q + 2) = idle_word n"
    using l by (simp add: f nth_append)
qed

lemma frame_words_short:
  assumes "0 < n" "length (drop (n - 1) wire) = q * n + m" "0 < m" "m < n"
  shows "length (frame_words n wire) = q + 3"
    and "frame_words n wire ! (q + 1) = data_word n (drop (q * n) (drop (n - 1) wire))"
    and "frame_words n wire ! (q + 2) = idle_word n"
proof -
  define rest where "rest = drop (n - 1) wire"
  have l: "length (data_words n rest) = q + 1"
    using assms by (simp add: length_data_words rest_def)
  have f: "frame_words n wire = start_word n wire # data_words n rest @ [idle_word n]"
    using assms by (simp add: frame_words_def rest_def)
  show "length (frame_words n wire) = q + 3"
    by (simp add: f l)
  have "q * n < length rest"
    using assms by (simp add: rest_def)
  then have d: "data_words n rest ! q = data_word n (drop (q * n) rest)"
    using assms(1) by (intro nth_data_words)
  show "frame_words n wire ! (q + 1) = data_word n (drop (q * n) (drop (n - 1) wire))"
    using l d by (simp add: f nth_append rest_def)
  show "frame_words n wire ! (q + 2) = idle_word n"
    using l by (simp add: f nth_append)
qed

text \<open>
  C4: for a bus of 1 to 36 lanes (4 and 8 among them) and every raw frame, let \<open>r\<close> be
  the number of wire-frame bytes left after the start word and \<open>q = r div n\<close>. The
  driver puts out \<open>q + 3\<close> words, the last one idle. If \<open>r\<close> is a multiple of \<open>n\<close>, word
  \<open>q\<close> is the last data word (all lanes data) and one more word follows it, with
  (TERMINATE, control) in lane 0 and (IDLE, control) in all other lanes. If \<open>r\<close> is one
  short of a multiple of \<open>n\<close>, word \<open>q + 1\<close> is the last data word, with the last
  \<open>n - 1\<close> bytes of the wire frame as data and (TERMINATE, control) in its last lane,
  and only the idle word follows it.
\<close>

theorem boundary_termination:
  assumes "0 < n" "n \<le> 36"
  shows "\<exists>ws bus. driver_send (XGMIIBus_init n il) raw = Some (Inr (ws, bus))
     \<and> (let wire = layer1 raw; r = length wire - (n - 1); q = r div n in
         length ws = q + 3
         \<and> get_bytes n il (ws ! (q + 2)) = (replicate n True, replicate n XGMII_IDLE)
         \<and> (r mod n = 0 \<longrightarrow>
              get_bytes n il (ws ! q) = (replicate n False, drop (length wire - n) wire)
              \<and> get_bytes n il (ws ! (q + 1))
                  = (replicate n True, XGMII_TERMINATE # replicate (n - 1) XGMII_IDLE))
         \<and> (r mod n = n - 1 \<longrightarrow>
              get_bytes n il (ws ! (q + 1))
                = (replicate (n - 1) False @ [True],
                   drop (length wire - (n - 1)) wire @ [XGMII_TERMINATE])))"
proof -
  define wire where "wire = layer1 raw"
  define r where "r = length wire - (n - 1)"
  define q where "q = r div n"
  define F where "F = frame_words n wire"
  define ws where "ws = map (word_of_lanes il n) F"
  have n: "0 < n" "n \<le> 36" using assms by auto
  have lw: "71 \<le> length wire" by (simp add: wire_def length_layer1)
  then have l: "n - 1 \<le> length wire" using n by simp
  have d: "driver_send (XGMIIBus_init n il) raw = Some (Inr (ws, XGMIIBus_init n il))"
    unfolding ws_def F_def wire_def using n(1) l [unfolded wire_def] by (rule driver_send_eq)
  have rl: "length (drop (n - 1) wire) = r" by (simp add: r_def)
  have r64: "n \<le> r" using lw n by (simp add: r_def)
  have rq: "r = q * n + r mod n" by (simp add: q_def)
  have wl: "length wire = (n - 1) + r" using l by (simp add: r_def)
  have li: "length F = q + 3 \<and> F ! (q + 2) = idle_word n"
  proof (cases "r mod n = 0")
    case True
    then have e: "length (drop (n - 1) wire) = q * n" using rq rl by simp
    have "0 < q" using r64 True rq n(1) by (cases q) simp_all
    note fe = frame_words_exact [OF n(1) e this]
    show ?thesis
      unfolding F_def using fe(1) fe(4) by blast
  next
    case False
    then have m: "0 < r mod n" "r mod n < n" using n(1) by simp_all
    have e: "length (drop (n - 1) wire) = q * n + r mod n" using rq rl by simp
    note fs = frame_words_short [OF n(1) e m]
    show ?thesis
      unfolding F_def using fs(1) fs(3) by blast
  qed
  then have len: "length F = q + 3" and idle: "F ! (q + 2) = idle_word n"
    by blast+
  have exact: "F ! q = data_word n (drop ((q - 1) * n) (drop (n - 1) wire))
                  \<and> F ! (q + 1) = data_word n [] \<and> 0 < q" if z: "r mod n = 0"
  proof -
    have e: "length (drop (n - 1) wire) = q * n" using rq rl z by simp
    have q: "0 < q" using r64 z rq n(1) by (cases q) simp_all
    note fe = frame_words_exact [OF n(1) e q]
    show ?thesis
      unfolding F_def using fe(2) fe(3) q by blast
  qed
  have short: "F ! (q + 1) = data_word n (drop (q * n) (drop (n - 1) wire))" if "r mod n \<noteq> 0"
  proof -
    have m: "0 < r mod n" "r mod n < n" using n(1) that by simp_all
    have e: "length (drop (n - 1) wire) = q * n + r mod n" using rq rl by simp
    note fs = frame_words_short [OF n(1) e m]
    show ?thesis
      unfolding F_def by (rule fs(2))
  qed
  have nth: "i < q + 3 \<Longrightarrow> ws ! i = word_of_lanes il n (F ! i)" for i
    by (simp add: ws_def len)
  have 1: "length ws = q + 3" by (simp add: ws_def len)
  have w2: "ws ! (q + 2) = word_of_lanes il n (idle_word n)"
    using nth [of "q + 2"] idle by simp
  have 2: "get_bytes n il (ws ! (q + 2)) = (replicate n True, replicate n XGMII_IDLE)"
    unfolding w2 by (rule get_bytes_idle_word)
  have 3: "get_bytes n il (ws ! q) = (replicate n False, drop (length wire - n) wire)
           \<and> get_bytes n il (ws ! (q + 1))
               = (replicate n True, XGMII_TERMINATE # replicate (n - 1) XGMII_IDLE)"
    if z: "r mod n = 0"
  proof -
    have q: "0 < q" using exact [OF z] by simp
    have rqn: "r = q * n" using rq z by simp
    have qn: "q * n = (q - 1) * n + n" using q by (cases q) simp_all
    have dd: "drop ((q - 1) * n) (drop (n - 1) wire) = drop (length wire - n) wire"
    proof -
      have "(n - 1) + (q - 1) * n = length wire - n"
        using wl rqn qn n(1) by simp
      then show ?thesis by (simp add: add.commute)
    qed
    have ld: "length (drop (length wire - n) wire) = n"
      using wl rqn qn n(1) by simp
    have wq: "ws ! q = word_of_lanes il n (data_word n (drop (length wire - n) wire))"
      using nth [of q] exact [OF z] dd by simp
    have wq1: "ws ! (q + 1) = word_of_lanes il n (data_word n [])"
      using nth [of "q + 1"] exact [OF z] by simp
    have a: "get_bytes n il (ws ! q) = (replicate n False, drop (length wire - n) wire)"
      unfolding wq using ld by (simp add: get_bytes_data_word_full)
    have "replicate n True = True # replicate (n - 1) True"
      using n(1) by (cases n) simp_all
    then have b: "get_bytes n il (ws ! (q + 1))
               = (replicate n True, XGMII_TERMINATE # replicate (n - 1) XGMII_IDLE)"
      unfolding wq1 using n(1) by (simp add: get_bytes_data_word_end)
    show ?thesis using a b by simp
  qed
  have 4: "get_bytes n il (ws ! (q + 1))
                = (replicate (n - 1) False @ [True],
                   drop (length wire - (n - 1)) wire @ [XGMII_TERMINATE])"
    if m: "r mod n = n - 1"
  proof -
    show ?thesis
    proof (cases "n = 1")
      case True
      then have z: "r mod n = 0" by simp
      have "drop (length wire - (n - 1)) wire = []" using True by simp
      then show ?thesis using 3 [OF z] True by simp
    next
      case False
      then have nz: "r mod n \<noteq> 0" using m n(1) by simp
      have dd: "drop (q * n) (drop (n - 1) wire) = drop (length wire - (n - 1)) wire"
      proof -
        have "(n - 1) + q * n = length wire - (n - 1)"
          using wl rq m by simp
        then show ?thesis by (simp add: add.commute)
      qed
      have ld: "length (drop (length wire - (n - 1)) wire) = n - 1"
        using wl rq m by simp
      have wq1: "ws ! (q + 1)
                   = word_of_lanes il n (data_word n (drop (length wire - (n - 1)) wire))"
        using nth [of "q + 1"] short [OF nz] dd by simp
      show ?thesis
        unfolding wq1 using ld n(1) by (simp add: get_bytes_data_word_end)
    qed
  qed
  have 5: "get_bytes n il (ws ! (q + 1))
                = (replicate (n - 1) False @ [True], drop r wire @ [XGMII_TERMINATE])"
    if m: "r mod n = n - 1"
    using 4 [OF m] by (simp add: r_def)
  show ?thesis
    unfolding Let_def wire_def [symmetric] r_def [symmetric] q_def [symmetric]
    by (rule exI [of _ ws], rule exI [of _ "XGMIIBus_init n il"]) (use d 1 2 3 5 in simp)
qed



theorem boundary_termination_witness:
  "(\<exists>ws bus. driver_send (XGMIIBus_init 4 True) [0xAA] = Some (Inr (ws, bus))
      \<and> length ws = 20
      \<and> get_bytes 4 True (ws ! 18)
            = ([True, True, True, True], [XGMII_TERMINATE, XGMII_IDLE, XGMII_IDLE, XGMII_IDLE])
      \<and> get_bytes 4 True (ws ! 19)
            = ([True, True, True, True], [XGMII_IDLE, XGMII_IDLE, XGMII_IDLE, XGMII_IDLE]))
   \<and> (\<exists>ws bus. driver_send (XGMIIBus_init 4 True) (replicate 63 0x11) = Some (Inr (ws, bus))
      \<and> length ws = 20
      \<and> fst (get_bytes 4 True (ws ! 18)) = [False, False, False, True]
      \<and> snd (get_bytes 4 True (ws ! 18)) ! 3 = XGMII_TERMINATE
      \<and> get_bytes 4 True (ws ! 19)
            = ([True, True, True, True], [XGMII_IDLE, XGMII_IDLE, XGMII_IDLE, XGMII_IDLE]))"
proof -
  have r4: "replicate 4 x = [x, x, x, x]" "replicate 3 x = [x, x, x]" for x :: 'a
    by (simp_all add: numeral_eq_Suc)
  have a: "\<exists>ws bus. driver_send (XGMIIBus_init 4 True) [0xAA] = Some (Inr (ws, bus))
      \<and> length ws = 20
      \<and> get_bytes 4 True (ws ! 18)
            = ([True, True, True, True], [XGMII_TERMINATE, XGMII_IDLE, XGMII_IDLE, XGMII_IDLE])
      \<and> get_bytes 4 True (ws ! 19)
            = ([True, True, True, True], [XGMII_IDLE, XGMII_IDLE, XGMII_IDLE, XGMII_IDLE])"
    using boundary_termination [of 4 True "[0xAA]"]
    by (simp add: length_layer1 Let_def r4) blast
  have l: "length (layer1 (replicate 63 0x11)) = 74"
    by (simp add: length_layer1)
  have b: "\<exists>ws bus. driver_send (XGMIIBus_init 4 True) (replicate 63 0x11) = Some (Inr (ws, bus))
      \<and> length ws = 20
      \<and> fst (get_bytes 4 True (ws ! 18)) = [False, False, False, True]
      \<and> snd (get_bytes 4 True (ws ! 18)) ! 3 = XGMII_TERMINATE
      \<and> get_bytes 4 True (ws ! 19)
            = ([True, True, True, True], [XGMII_IDLE, XGMII_IDLE, XGMII_IDLE, XGMII_IDLE])"
    using boundary_termination [of 4 True "replicate 63 0x11"]
    by (simp add: l Let_def r4) (auto simp add: nth_append l)
  show ?thesis using a b by blast
qed

text \<open>
  C1 (amended): for every raw frame of 1 to 1500 bytes, 4 or 8 lanes and both
  layouts, the monitor fed with the words the driver puts out for the frame delivers
  exactly one payload: the raw bytes padded on the right with zero bytes to 60 bytes
  (the raw bytes themselves when there are 60 or more), and logs no error.
\<close>

theorem loopback_padded:
  assumes "1 \<le> length raw" "length raw \<le> 1500" "n = 4 \<or> n = 8"
  shows "loopback n il raw
           = Some (Inr ([Recv (raw @ replicate (60 - length raw) 0x00)],
                        \<lparr>pc = Scanning, self_pkt = []\<rparr>))"
  using assms(3) by (intro loopback_eq) auto

theorem loopback_padded_witness:
  "loopback 8 False [0xAA, 0xBB]
     = Some (Inr ([Recv ([0xAA, 0xBB] @ replicate 58 0x00)], \<lparr>pc = Scanning, self_pkt = []\<rparr>))"
  using loopback_padded [of "[0xAA, 0xBB]" 8 False] by simp

text \<open>
  C1 as stated fails for every frame shorter than 60 bytes: the one-byte frame
  \<open>AA\<close> comes back as 60 bytes, \<open>AA\<close> and 59 zero bytes.
\<close>

theorem loopback_one_byte_counterexample:
  "loopback 4 True [0xAA]
     = Some (Inr ([Recv (0xAA # replicate 59 0x00)], \<lparr>pc = Scanning, self_pkt = []\<rparr>))
   \<and> 0xAA # replicate 59 0x00 \<noteq> [0xAA :: byte]"
  using loopback_eq [of 4 True "[0xAA]"] by simp

subsection \<open>Reading the word\<close>

lemma get_bytes_zero: "get_bytes n il 0 = (replicate n False, replicate n 0)"
  by (simp add: get_bytes_eq map_replicate_const)

text \<open>
  C9: reading the packed value clears the builder: after one read the stored integer
  is zero and none of its bits is set, a second read with no write in between gives
  the binary value of zero, the all-zero word, in which every lane unpacks to the
  byte 0 with its control flag clear.
\<close>

theorem value_clears_word:
  "integer (snd (bus_value bus)) = 0
   \<and> (\<forall>k. \<not> bit (integer (snd (bus_value bus))) k)
   \<and> fst (bus_value (snd (bus_value bus))) = create_binary 0 (nbytes bus * 9) False
   \<and> fst (bus_value (snd (bus_value bus))) = 0
   \<and> get_bytes (nbytes bus) (interleaved bus) (fst (bus_value (snd (bus_value bus))))
        = (replicate (nbytes bus) False, replicate (nbytes bus) 0x00)
   \<and> nbytes (snd (bus_value bus)) = nbytes bus
   \<and> interleaved (snd (bus_value bus)) = interleaved bus"
  by (simp add: bus_value_def create_binary_def get_bytes_zero)

end
